theory Spec2Isabelle
  imports Complex_Main "HOL-Library.Multiset"
begin

section \<open>Shared data model of \<^verbatim>\<open>dataset.py\<close>\<close>

text \<open>
  Exceptions of the Python source are values: every function that can raise returns
  \<open>py_error + 'a\<close>, with \<open>Inl\<close> the exception.
\<close>

datatype py_error =
  ValueError | IndexError | AttributeError | AssertionError | RuntimeError | TypeError

text \<open>
  The label matrix handed to both samplers: a two-dimensional array, rows = examples,
  columns = classes, entries \<^verbatim>\<open>int64\<close>. \<open>kind\<close> tells a dense \<^verbatim>\<open>numpy\<close> array from a
  \<^verbatim>\<open>scipy.sparse\<close> matrix, and among the sparse formats those that support the
  indexing \<^verbatim>\<open>labels[:, j]\<close> (CSR, CSC, LIL, DOK) from those that raise TypeError on it
  (COO, DIA, BSR). \<open>n_cols\<close> is \<^verbatim>\<open>shape[1]\<close>, kept apart from the rows because a
  matrix with no rows still has a column count.
\<close>

datatype matrix_kind = Dense | Sparse_indexable | Sparse_not_indexable

record label_matrix =
  kind :: matrix_kind
  n_cols :: nat
  rows :: "int list list"

text \<open>\<^verbatim>\<open>scipy.sparse.issparse\<close>\<close>

definition sparse :: "label_matrix \<Rightarrow> bool" where
  "sparse Y = (kind Y \<noteq> Dense)"

definition wf_labels :: "label_matrix \<Rightarrow> bool" where
  "wf_labels Y = list_all (\<lambda>r. length r = n_cols Y) (rows Y)"

text \<open>A dense 0/1 matrix: every entry is 0 or 1.\<close>

definition zero_one :: "label_matrix \<Rightarrow> bool" where
  "zero_one Y = list_all (\<lambda>r. list_all (\<lambda>v. v = 0 \<or> v = 1) r) (rows Y)"

text \<open>Example \<open>i\<close> is active in class \<open>c\<close>: row \<open>i\<close> exists and holds a 1 in column \<open>c\<close>.\<close>

definition active :: "label_matrix \<Rightarrow> nat \<Rightarrow> nat \<Rightarrow> bool" where
  "active Y c i = (i < length (rows Y) \<and> rows Y ! i ! c = 1)"

text \<open>Every class has an active example; every row has an active class.\<close>

definition classes_occupied :: "label_matrix \<Rightarrow> bool" where
  "classes_occupied Y = list_all (\<lambda>c. list_ex (\<lambda>r. r ! c = 1) (rows Y)) [0..<n_cols Y]"

definition rows_occupied :: "label_matrix \<Rightarrow> bool" where
  "rows_occupied Y = list_all (\<lambda>r. list_ex (\<lambda>c. r ! c = 1) [0..<n_cols Y]) (rows Y)"

section \<open>MultiBalancedSampler\<close>

text \<open>
  The weights are computed by the source in IEEE-754 binary64 (\<^verbatim>\<open>numpy\<close>'s
  \<^verbatim>\<open>float64\<close>) and stored in binary32 (\<^verbatim>\<open>torch.float\<close>). A floating-point
  number is modelled by the rational it denotes, and the four rounded operations the
  constructor uses are parameters of the model:

    \<^item> \<open>fp_recip\<close>: \<^verbatim>\<open>1. / n\<close> for an \<^verbatim>\<open>int64\<close> \<open>n\<close> (conversion to \<^verbatim>\<open>float64\<close>, then the
      rounded quotient);
    \<^item> \<open>fp_div\<close>: the rounded quotient of two \<^verbatim>\<open>float64\<close> values;
    \<^item> \<open>fp_sum\<close>: \<^verbatim>\<open>np.add.reduce\<close> on a one-dimensional \<^verbatim>\<open>float64\<close> array (rounded
      additions in the order \<^verbatim>\<open>numpy\<close> chooses);
    \<^item> \<open>fp_float32\<close>: the conversion of a \<^verbatim>\<open>float64\<close> value to \<^verbatim>\<open>float32\<close>.
\<close>

record fp_ops =
  fp_recip :: "int \<Rightarrow> rat"
  fp_div :: "rat \<Rightarrow> rat \<Rightarrow> rat"
  fp_sum :: "rat list \<Rightarrow> rat"
  fp_float32 :: "rat \<Rightarrow> rat"

text \<open>
  What the theorems below use of round-to-nearest arithmetic. Rounding is monotone and
  leaves representable numbers (0, 1, the integers up to \<open>2^53\<close>) unchanged, and in the
  normal range a rounded result is within a factor \<open>1 \<plusminus> 2^-24\<close> of the exact one,
  hence at least half of it:

    \<^item> for \<open>1 \<le> n < 2^63\<close> the value \<^verbatim>\<open>1. / n\<close> lies in \<open>[1/(2n), 1]\<close>;
    \<^item> a sum of at most \<open>2^53\<close> values of \<open>[0, 1]\<close> is at least each summand and at most
      the number of summands;
    \<^item> for \<open>2^-200 \<le> a \<le> b \<le> 2^53\<close> the quotient \<open>a / b\<close> lies in \<open>[a/(2b), 1]\<close>;
    \<^item> the conversion to \<^verbatim>\<open>float32\<close> maps \<open>[0, 1]\<close> into \<open>[0, 1]\<close>, and a value of at
      least \<open>2^-126\<close> (the smallest normal \<^verbatim>\<open>float32\<close>) to at least half of it.
\<close>

definition fp_ok :: "fp_ops \<Rightarrow> bool" where
  "fp_ok F \<longleftrightarrow>
     (\<forall>n. 1 \<le> n \<and> n < 2 ^ 63 \<longrightarrow>
        1 / (2 * of_int n) \<le> fp_recip F n \<and> fp_recip F n \<le> 1)
   \<and> (\<forall>xs. xs \<noteq> [] \<and> length xs \<le> 2 ^ 53 \<and> (\<forall>x\<in>set xs. 0 \<le> x \<and> x \<le> 1) \<longrightarrow>
        (\<forall>x\<in>set xs. x \<le> fp_sum F xs) \<and> fp_sum F xs \<le> of_nat (length xs))
   \<and> (\<forall>a b. 1 / 2 ^ 200 \<le> a \<and> a \<le> b \<and> b \<le> 2 ^ 53 \<longrightarrow>
        a / (2 * b) \<le> fp_div F a b \<and> fp_div F a b \<le> 1)
   \<and> (\<forall>x. 0 \<le> x \<and> x \<le> 1 \<longrightarrow>
        0 \<le> fp_float32 F x \<and> fp_float32 F x \<le> 1
        \<and> (1 / 2 ^ 126 \<le> x \<longrightarrow> x / 2 \<le> fp_float32 F x))"

text \<open>
  The operations without rounding. They agree with the floating-point operations
  wherever every intermediate result is representable; the concrete matrices evaluated
  below (class counts 1 and 2, hence only the values 1, 2 and 1/2) are of that kind.
\<close>

definition exact_fp :: fp_ops where
  "exact_fp = \<lparr> fp_recip = (\<lambda>n. 1 / of_int n), fp_div = (\<lambda>a b. a / b),
                fp_sum = sum_list, fp_float32 = (\<lambda>x. x) \<rparr>"

text \<open>
  Where numpy would produce \<^verbatim>\<open>inf\<close> or \<^verbatim>\<open>nan\<close> (a class count of zero, or inverse
  counts that sum to zero) without raising, the construction result is
  \<open>FloatSpecial\<close>: the constructor returns, with weights that are not numbers.
\<close>

datatype 'a construction = Raises py_error | FloatSpecial | Built 'a

record mbs =
  mbs_weights :: "rat list"
  mbs_len :: nat
  mbs_replacement :: bool

text \<open>Two's-complement wrap-around of \<^verbatim>\<open>int64\<close> arithmetic.\<close>

definition int64 :: "int \<Rightarrow> int" where
  "int64 x = (x + 9223372036854775808) mod 18446744073709551616 - 9223372036854775808"

text \<open>\<^verbatim>\<open>np.sum(Y, axis=0)\<close>, accumulated in \<^verbatim>\<open>int64\<close>\<close>

definition class_counts :: "label_matrix \<Rightarrow> int list" where
  "class_counts Y = map (\<lambda>c. int64 (sum_list (map (\<lambda>r. r ! c) (rows Y)))) [0..<n_cols Y]"

text \<open>\<^verbatim>\<open>class_weights = 1. / class_counts; class_weights = class_weights / class_weights.sum()\<close>\<close>

definition inverse_counts :: "fp_ops \<Rightarrow> label_matrix \<Rightarrow> rat list" where
  "inverse_counts F Y = map (fp_recip F) (class_counts Y)"

definition class_weights :: "fp_ops \<Rightarrow> label_matrix \<Rightarrow> rat list" where
  "class_weights F Y =
     map (\<lambda>w. fp_div F w (fp_sum F (inverse_counts F Y))) (inverse_counts F Y)"

text \<open>
  \<^verbatim>\<open>class_ids = [tuple(classes.compress(idx)) for idx in Y]\<close>: the classes whose entry in
  the row is non-zero.
\<close>

definition class_ids :: "label_matrix \<Rightarrow> nat list list" where
  "class_ids Y = map (\<lambda>idx. filter (\<lambda>c. idx ! c \<noteq> 0) [0..<n_cols Y]) (rows Y)"

text \<open>
  \<^verbatim>\<open>np.mean(class_weights[np.array(class_ids[i])])\<close>: the sum of the selected weights
  divided by their number, in \<^verbatim>\<open>float64\<close>.
\<close>

definition sample_weight :: "fp_ops \<Rightarrow> rat list \<Rightarrow> nat list \<Rightarrow> rat" where
  "sample_weight F cw ids = fp_div F (fp_sum F (map (\<lambda>c. cw ! c) ids)) (of_nat (length ids))"

text \<open>
  \<^verbatim>\<open>__init__(self, Y, replacement=False, num_samples=None)\<close>. An omitted keyword
  argument is \<open>None\<close>. The modelled input is two-dimensional, so the assertion on
  \<^verbatim>\<open>Y.ndim\<close> holds. \<^verbatim>\<open>Y[0]\<close> raises IndexError on a matrix without rows, and
  indexing with the empty (float) array of an all-zero row raises IndexError.
  \<^verbatim>\<open>torch.as_tensor(sample_weights, dtype=torch.float)\<close> converts every weight to
  \<^verbatim>\<open>float32\<close>.
\<close>

definition MultiBalancedSampler_init ::
  "fp_ops \<Rightarrow> label_matrix \<Rightarrow> bool option \<Rightarrow> nat option \<Rightarrow> mbs construction" where
  "MultiBalancedSampler_init F Y replacement num_samples =
     (if sparse Y then Raises ValueError
      else if rows Y = [] then Raises IndexError
      else if list_ex (\<lambda>ids. ids = []) (class_ids Y) then Raises IndexError
      else if list_ex (\<lambda>n. n = 0) (class_counts Y) \<or> fp_sum F (inverse_counts F Y) = 0
        then FloatSpecial
      else Built \<lparr>
        mbs_weights =
          map (\<lambda>ids. fp_float32 F (sample_weight F (class_weights F Y) ids)) (class_ids Y),
        mbs_len = (case num_samples of None \<Rightarrow> length (rows Y)
                   | Some n \<Rightarrow> if n \<noteq> 0 then n else length (rows Y)),
        mbs_replacement = (case replacement of None \<Rightarrow> False | Some b \<Rightarrow> b) \<rparr>)"

definition MultiBalancedSampler_len :: "mbs \<Rightarrow> nat" where
  "MultiBalancedSampler_len s = mbs_len s"

text \<open>
  \<^verbatim>\<open>__iter__\<close> hands the stored weights, length and replacement flag to
  \<^verbatim>\<open>torch.multinomial\<close>, an external library function. The model records the call.
\<close>

datatype torch_call =
  Multinomial (draw_weights: "rat list") (draw_count: nat) (with_replacement: bool)

definition MultiBalancedSampler_iter :: "mbs \<Rightarrow> torch_call" where
  "MultiBalancedSampler_iter s = Multinomial (mbs_weights s) (mbs_len s) (mbs_replacement s)"
section \<open>Padding and collation\<close>

text \<open>
  An example's feature sequence and frame-target sequence are two-dimensional tensors
  \<^verbatim>\<open>[time, feature_dim]\<close>: \<open>frames\<close> holds the time steps, \<open>feat_dim\<close> is
  \<^verbatim>\<open>shape[-1]\<close> (a tensor of time length 0 still has one). The element type stands
  for \<^verbatim>\<open>float32\<close>; collation only copies elements and writes the padding value.
\<close>

record 'a tensor2 =
  feat_dim :: nat
  frames :: "'a list list"

definition wf_tensor2 :: "'a tensor2 \<Rightarrow> bool" where
  "wf_tensor2 t = list_all (\<lambda>r. length r = feat_dim t) (frames t)"

record 'a tensor3 =
  shape3 :: "nat \<times> nat \<times> nat"
  cells :: "'a list list list"

text \<open>\<^verbatim>\<open>torch.full((batch_dim, max_len, data_dim), fill_value=padding_value)\<close>\<close>

definition full :: "nat \<times> nat \<times> nat \<Rightarrow> 'a \<Rightarrow> 'a tensor3" where
  "full sh v = (case sh of (b, t, d) \<Rightarrow>
     \<lparr>shape3 = sh, cells = replicate b (replicate t (replicate d v))\<rparr>)"

text \<open>
  \<^verbatim>\<open>out_tensor[i, :length, ...] = tensor[:length, ...]\<close> on the plane \<^verbatim>\<open>out_tensor[i]\<close>:
  the first \<^verbatim>\<open>length\<close> time steps are overwritten. torch copies when the feature
  dimensions agree, broadcasts a feature dimension of 1, and raises RuntimeError on any
  other mismatch.
\<close>

definition slice_assign :: "nat \<Rightarrow> 'a tensor2 \<Rightarrow> 'a list list \<Rightarrow> py_error + 'a list list" where
  "slice_assign data_dim tensor plane =
     (let len = length (frames tensor) in
      if feat_dim tensor = data_dim then Inr (frames tensor @ drop len plane)
      else if feat_dim tensor = 1
        then Inr (map (\<lambda>r. replicate data_dim (r ! 0)) (frames tensor) @ drop len plane)
      else Inl RuntimeError)"

text \<open>\<^verbatim>\<open>for i, tensor in enumerate(tensorlist)\<close>\<close>

fun pad_loop ::
  "nat \<Rightarrow> 'a list list list \<Rightarrow> nat \<Rightarrow> 'a tensor2 list \<Rightarrow> py_error + 'a list list list" where
  "pad_loop data_dim out i [] = Inr out"
| "pad_loop data_dim out i (tensor # rest) =
     (case slice_assign data_dim tensor (out ! i) of
        Inl e \<Rightarrow> Inl e
      | Inr plane \<Rightarrow> pad_loop data_dim (out[i := plane]) (Suc i) rest)"

text \<open>
  \<^verbatim>\<open>pad(tensorlist, padding_value=0.)\<close>. \<^verbatim>\<open>np.max\<close> of an empty list raises
  ValueError. Returns the padded tensor and the vector of lengths.
\<close>

definition pad :: "'a tensor2 list \<Rightarrow> 'a \<Rightarrow> py_error + ('a tensor3 \<times> nat list)" where
  "pad tensorlist padding_value =
     (let lengths = map (\<lambda>f. length (frames f)) tensorlist in
      if lengths = [] then Inl ValueError
      else
        let max_len = Max (set lengths);
            batch_dim = length lengths;
            data_dim = feat_dim (hd tensorlist);
            out_tensor = full (batch_dim, max_len, data_dim) padding_value
        in case pad_loop data_dim (cells out_tensor) 0 tensorlist of
             Inl e \<Rightarrow> Inl e
           | Inr c \<Rightarrow> Inr (out_tensor\<lparr>cells := c\<rparr>, lengths))"

text \<open>
  One drawn example: feature sequence, frame-target sequence, clip-target pair
  (noise, speech) and identifier.
\<close>

type_synonym 'a example = "'a tensor2 \<times> 'a tensor2 \<times> ('a \<times> 'a) \<times> string"

definition ex_data :: "'a example \<Rightarrow> 'a tensor2" where
  "ex_data b = fst b"

definition ex_target :: "'a example \<Rightarrow> 'a tensor2" where
  "ex_target b = fst (snd b)"

definition ex_clip :: "'a example \<Rightarrow> 'a \<times> 'a" where
  "ex_clip b = fst (snd (snd b))"

definition ex_fname :: "'a example \<Rightarrow> string" where
  "ex_fname b = snd (snd (snd b))"

text \<open>The shape of a one-dimensional tensor.\<close>

definition shape1 :: "nat list \<Rightarrow> nat list" where
  "shape1 v = [length v]"

text \<open>
  \<^verbatim>\<open>sequential_collate(batches)\<close>. Unpacking \<^verbatim>\<open>zip(*batches)\<close> of an empty batch
  into four names raises ValueError. The assertion compares the shapes of the two
  length vectors. \<^verbatim>\<open>torch.stack\<close> of the clip-target pairs is the list of pairs.
\<close>

definition sequential_collate ::
  "('a::zero) example list \<Rightarrow>
   py_error + ('a tensor3 \<times> 'a tensor3 \<times> ('a \<times> 'a) list \<times> string list \<times> nat list)" where
  "sequential_collate batches =
     (if batches = [] then Inl ValueError
      else
        case pad (map ex_data batches) 0 of
          Inl e \<Rightarrow> Inl e
        | Inr (data, lengths_data) \<Rightarrow>
           (case pad (map ex_target batches) 0 of
              Inl e \<Rightarrow> Inl e
            | Inr (targets_time, lengths_tar) \<Rightarrow>
                if shape1 lengths_data = shape1 lengths_tar
                then Inr (data, targets_time, map ex_clip batches, map ex_fname batches,
                          lengths_tar)
                else Inl AssertionError))"

text \<open>The true time length of every example's feature sequence, in draw order.\<close>

definition data_lengths :: "'a example list \<Rightarrow> nat list" where
  "data_lengths batches = map (\<lambda>b. length (frames (ex_data b))) batches"

section \<open>MinimumOccupancySampler\<close>

subsection \<open>numpy's random generator\<close>

text \<open>
  numpy's generator is an external library. A generator state has type \<open>'g\<close>; the
  operations the sampler calls are the fields of \<open>np_random\<close>, each returning its
  result and the advanced state: \<^verbatim>\<open>RandomState(seed=n)\<close>, \<^verbatim>\<open>shuffle(x)\<close> (the
  shuffled copy of \<open>x\<close>), \<^verbatim>\<open>randint(high, size=size)\<close> and \<^verbatim>\<open>permutation(n)\<close>.
  The sampler receives two states: its own \<^verbatim>\<open>self.random_state\<close>, and the
  process-wide state behind the module-level functions \<^verbatim>\<open>np.random.*\<close>.
\<close>

record 'g np_random =
  seeded :: "nat \<Rightarrow> 'g"
  rs_shuffle :: "'g \<Rightarrow> nat list \<Rightarrow> nat list \<times> 'g"
  rs_randint :: "'g \<Rightarrow> nat \<Rightarrow> nat \<Rightarrow> nat list \<times> 'g"
  rs_permutation :: "'g \<Rightarrow> nat \<Rightarrow> nat list \<times> 'g"

text \<open>
  What numpy documents of these operations: a shuffle permutes its argument, a draw of
  \<open>size\<close> integers below a positive \<open>high\<close> has \<open>size\<close> elements, all below \<open>high\<close>,
  and \<^verbatim>\<open>permutation(n)\<close> permutes \<^verbatim>\<open>range(n)\<close>.
\<close>

definition np_random_ok :: "'g np_random \<Rightarrow> bool" where
  "np_random_ok R \<longleftrightarrow>
     (\<forall>g xs. mset (fst (rs_shuffle R g xs)) = mset xs) \<and>
     (\<forall>g high n. 0 < high \<longrightarrow>
        length (fst (rs_randint R g high n)) = n \<and>
        (\<forall>j\<in>set (fst (rs_randint R g high n)). j < high)) \<and>
     (\<forall>g n. mset (fst (rs_permutation R g n)) = mset [0..<n])"

text \<open>
  \<^verbatim>\<open>np.random.RandomState(seed=random_state)\<close>: with \<^verbatim>\<open>seed=None\<close> the state comes
  from the operating system's entropy, here the argument \<open>entropy\<close>. An integer seed
  must lie in \<open>[0, 2^32 - 1]\<close>; numpy raises ValueError for any other.
\<close>

definition RandomState :: "'g np_random \<Rightarrow> int option \<Rightarrow> 'g \<Rightarrow> py_error + 'g" where
  "RandomState R seed entropy =
     (case seed of
        None \<Rightarrow> Inr entropy
      | Some n \<Rightarrow> if 0 \<le> n \<and> n < 4294967296 then Inr (seeded R (nat n))
                  else Inl ValueError)"

text \<open>The seeds \<^verbatim>\<open>RandomState\<close> accepts.\<close>

definition seed_ok :: "int option \<Rightarrow> bool" where
  "seed_ok seed = (case seed of None \<Rightarrow> True | Some n \<Rightarrow> 0 \<le> n \<and> n < 4294967296)"

text \<open>
  \<^verbatim>\<open>randint(high, size=size)\<close>: numpy returns the empty array for \<open>size = 0\<close> before it
  looks at the range, and raises ValueError for an empty range \<open>[0, 0)\<close> otherwise.
\<close>

definition np_random_randint ::
  "'g np_random \<Rightarrow> 'g \<Rightarrow> nat \<Rightarrow> nat \<Rightarrow> py_error + (nat list \<times> 'g)" where
  "np_random_randint R g high n =
     (if n = 0 then Inr ([], g)
      else if high = 0 then Inl ValueError
      else Inr (rs_randint R g high n))"

text \<open>
  A small deterministic generator that meets \<open>np_random_ok\<close>: its state is a counter,
  a shuffle rotates by the counter, a draw counts upwards from the counter modulo
  \<open>high\<close>. It instantiates the generator on concrete inputs.
\<close>

definition counter_random :: "nat np_random" where
  "counter_random =
     \<lparr> seeded = (\<lambda>n. n),
       rs_shuffle = (\<lambda>g xs. (rotate g xs, Suc g)),
       rs_randint = (\<lambda>g high n. (map (\<lambda>k. (g + k) mod high) [0..<n], g + n)),
       rs_permutation = (\<lambda>g n. (rotate g [0..<n], Suc g)) \<rparr>"

subsection \<open>The sampler\<close>

text \<open>The working buffer has \<^verbatim>\<open>dtype=np.uint32\<close>: a stored index is reduced modulo \<open>2^32\<close>.\<close>

definition uint32 :: "nat \<Rightarrow> nat" where
  "uint32 i = i mod 4294967296"

text \<open>
  \<^verbatim>\<open>np.empty((r, c), dtype=np.uint32)\<close> is uninitialised memory: its contents are
  whatever \<open>junk\<close> the allocator left there.
\<close>

definition np_empty :: "nat \<Rightarrow> nat \<Rightarrow> (nat \<Rightarrow> nat \<Rightarrow> nat) \<Rightarrow> nat list list" where
  "np_empty r c junk = map (\<lambda>i. map (\<lambda>j. uint32 (junk i j)) [0..<c]) [0..<r]"

text \<open>\<^verbatim>\<open>np.where(labels[:, lb_idx] == 1)[0]\<close>: the rows holding a 1, ascending.\<close>

definition np_where_eq1 :: "label_matrix \<Rightarrow> nat \<Rightarrow> nat list" where
  "np_where_eq1 Y lb_idx = filter (\<lambda>i. rows Y ! i ! lb_idx = 1) [0..<length (rows Y)]"

text \<open>
  \<^verbatim>\<open>buf[lo:hi, ix] = vals\<close> for \<open>hi \<le> len(buf)\<close>: row \<open>r\<close> of the slice receives
  \<open>vals[r - lo]\<close> in column \<open>ix\<close>.
\<close>

definition assign_col :: "nat list list \<Rightarrow> nat \<Rightarrow> nat \<Rightarrow> nat \<Rightarrow> nat list \<Rightarrow> nat list list" where
  "assign_col buf lo hi ix vals =
     map (\<lambda>r. if lo \<le> r \<and> r < hi then (buf ! r)[ix := uint32 (vals ! (r - lo))] else buf ! r)
       [0..<length buf]"

record 'g mos =
  labels :: label_matrix
  random_state :: 'g
  longest_seq :: nat
  data_source :: "nat list list"
  label_to_idx_list :: "nat list list"
  label_to_length :: "nat list"
  data_length :: "nat option"

text \<open>
  The first loop of \<^verbatim>\<open>__init__\<close>, over \<^verbatim>\<open>range(n_labels)\<close>: collect and shuffle the
  indices of each class, threading the sampler's own generator. The column of an
  indexable sparse matrix is made dense first (\<^verbatim>\<open>toarray\<close>), so it gives the same
  indices as the column of a dense matrix.
\<close>

fun collect_indices ::
  "'g np_random \<Rightarrow> label_matrix \<Rightarrow> 'g \<Rightarrow> nat list \<Rightarrow> nat list list \<times> 'g" where
  "collect_indices R Y g [] = ([], g)"
| "collect_indices R Y g (lb_idx # rest) =
     (case rs_shuffle R g (np_where_eq1 Y lb_idx) of
        (label_indexes, g1) \<Rightarrow>
          (case collect_indices R Y g1 rest of
             (idx_lists, g2) \<Rightarrow> (label_indexes # idx_lists, g2)))"

text \<open>
  The second loop of \<^verbatim>\<open>__init__\<close>, \<^verbatim>\<open>for ix, leng in enumerate(label_to_length)\<close>:
  \<^verbatim>\<open>data_source[:leng, ix] = label_to_idx_list[ix]\<close>.
\<close>

fun fill_real :: "nat list list \<Rightarrow> nat list list \<Rightarrow> nat \<Rightarrow> nat list \<Rightarrow> nat list list" where
  "fill_real idx_lists buf ix [] = buf"
| "fill_real idx_lists buf ix (leng # rest) =
     fill_real idx_lists (assign_col buf 0 leng ix (idx_lists ! ix)) (Suc ix) rest"

text \<open>
  \<^verbatim>\<open>__init__(self, labels, sampling_mode='same', random_state=None)\<close>; the model
  takes both keyword arguments explicitly. The generator is created first, so a seed
  numpy rejects raises ValueError before anything else. The first pass of the loop
  evaluates \<^verbatim>\<open>labels[:, lb_idx]\<close>, which raises TypeError on a sparse matrix of a
  format without indexing; nothing has been stored on the sampler by then, so the
  model tests the format once, before the loop, for a matrix with at least one column.
  \<^verbatim>\<open>max\<close> of the empty list (a matrix without columns) raises ValueError. A
  \<^verbatim>\<open>sampling_mode\<close> other than \<^verbatim>\<open>'same'\<close> and \<^verbatim>\<open>'over'\<close> passes through the
  \<^verbatim>\<open>if\<close>/\<^verbatim>\<open>elif\<close> without setting \<^verbatim>\<open>self.data_length\<close>: the attribute stays
  unset, \<open>None\<close>.
\<close>

definition MinimumOccupancySampler_init ::
  "'g np_random \<Rightarrow> label_matrix \<Rightarrow> string \<Rightarrow> int option \<Rightarrow> 'g \<Rightarrow> (nat \<Rightarrow> nat \<Rightarrow> nat) \<Rightarrow>
   py_error + 'g mos" where
  "MinimumOccupancySampler_init R Y sampling_mode seed entropy junk =
     (let data_samples = length (rows Y);
          n_labels = n_cols Y
      in case RandomState R seed entropy of
        Inl e \<Rightarrow> Inl e
      | Inr g0 \<Rightarrow>
          if 0 < n_labels \<and> kind Y = Sparse_not_indexable then Inl TypeError
          else
           (case collect_indices R Y g0 [0..<n_labels] of
              (idx_lists, g) \<Rightarrow>
                let lengths = map length idx_lists in
                if lengths = [] then Inl ValueError
                else
                  let longest = Max (set lengths);
                      buf = fill_real idx_lists
                              (np_empty longest (length lengths) junk) 0 lengths
                  in Inr \<lparr> labels = Y,
                           random_state = g,
                           longest_seq = longest,
                           data_source = buf,
                           label_to_idx_list = idx_lists,
                           label_to_length = lengths,
                           data_length =
                             (if sampling_mode = ''same'' then Some data_samples
                              else if sampling_mode = ''over''
                                then Some (longest * length lengths)
                              else None) \<rparr>))"

text \<open>
  The loop of \<^verbatim>\<open>_reshuffle\<close>. The random indices come from \<^verbatim>\<open>np.random.randint\<close>,
  the process-wide generator \<open>G\<close>, not from \<^verbatim>\<open>self.random_state\<close>. Indexing the
  class's list with an index out of range raises IndexError, and assigning a vector of
  the wrong length to the column slice raises ValueError; a generator within
  \<open>np_random_ok\<close> takes neither branch. \<^verbatim>\<open>longest_seq - leng\<close> is never negative,
  \<^verbatim>\<open>longest_seq\<close> being the maximum of the lengths.
\<close>

fun reshuffle_loop ::
  "'g np_random \<Rightarrow> nat list list \<Rightarrow> nat \<Rightarrow> 'g \<Rightarrow> nat list list \<Rightarrow> nat \<Rightarrow> nat list \<Rightarrow>
   py_error + ('g \<times> nat list list)" where
  "reshuffle_loop R idx_lists longest G buf ix [] = Inr (G, buf)"
| "reshuffle_loop R idx_lists longest G buf ix (leng # rest) =
     (let leftover = longest - leng in
      case np_random_randint R G leng leftover of
        Inl e \<Rightarrow> Inl e
      | Inr (random_idxs, G1) \<Rightarrow>
          if \<not> list_all (\<lambda>j. j < length (idx_lists ! ix)) random_idxs then Inl IndexError
          else if length random_idxs \<noteq> length buf - leng then Inl ValueError
          else reshuffle_loop R idx_lists longest G1
                 (assign_col buf leng (length buf) ix (map (\<lambda>j. idx_lists ! ix ! j) random_idxs))
                 (Suc ix) rest)"

definition MinimumOccupancySampler_reshuffle ::
  "'g np_random \<Rightarrow> 'g \<Rightarrow> 'g mos \<Rightarrow> py_error + ('g \<times> 'g mos)" where
  "MinimumOccupancySampler_reshuffle R G s =
     (case reshuffle_loop R (label_to_idx_list s) (longest_seq s) G (data_source s) 0
             (label_to_length s) of
        Inl e \<Rightarrow> Inl e
      | Inr (G1, buf) \<Rightarrow> Inr (G1, s\<lparr>data_source := buf\<rparr>))"

text \<open>
  \<^verbatim>\<open>__iter__\<close>: reshuffle, permute the buffer's rows with the sampler's own generator,
  concatenate them and cut at \<^verbatim>\<open>self.data_length\<close>. \<^verbatim>\<open>np.concatenate\<close> of no rows
  raises ValueError; reading the unset attribute raises AttributeError; a row index out
  of range (no generator within \<open>np_random_ok\<close> gives one) raises IndexError. The
  result is the emitted index stream, the advanced process-wide generator and the
  sampler. Where a call raises, the model returns the exception alone.
\<close>

definition MinimumOccupancySampler_iter ::
  "'g np_random \<Rightarrow> 'g \<Rightarrow> 'g mos \<Rightarrow> py_error + (nat list \<times> 'g \<times> 'g mos)" where
  "MinimumOccupancySampler_iter R G s =
     (case MinimumOccupancySampler_reshuffle R G s of
        Inl e \<Rightarrow> Inl e
      | Inr (G1, s1) \<Rightarrow>
          let n_samples = length (data_source s1) in
          case rs_permutation R (random_state s1) n_samples of
            (random_indices, g1) \<Rightarrow>
              let s2 = s1\<lparr>random_state := g1\<rparr> in
              if \<not> list_all (\<lambda>i. i < n_samples) random_indices then Inl IndexError
              else if random_indices = [] then Inl ValueError
              else (case data_length s2 of
                      None \<Rightarrow> Inl AttributeError
                    | Some dl \<Rightarrow>
                        Inr (take dl (concat (map (\<lambda>i. data_source s2 ! i) random_indices)),
                             G1, s2)))"

text \<open>\<^verbatim>\<open>__len__\<close>: reading the unset attribute raises AttributeError.\<close>

definition MinimumOccupancySampler_len :: "'g mos \<Rightarrow> py_error + nat" where
  "MinimumOccupancySampler_len s =
     (case data_length s of None \<Rightarrow> Inl AttributeError | Some dl \<Rightarrow> Inr dl)"

text \<open>
  \<open>k\<close> epochs: \<open>k\<close> successive calls of \<^verbatim>\<open>__iter__\<close> on one sampler, collecting the
  emitted streams.
\<close>

fun epochs ::
  "'g np_random \<Rightarrow> nat \<Rightarrow> 'g \<Rightarrow> 'g mos \<Rightarrow> py_error + (nat list list \<times> 'g \<times> 'g mos)" where
  "epochs R 0 G s = Inr ([], G, s)"
| "epochs R (Suc k) G s =
     (case MinimumOccupancySampler_iter R G s of
        Inl e \<Rightarrow> Inl e
      | Inr (stream, G1, s1) \<Rightarrow>
          (case epochs R k G1 s1 of
             Inl e \<Rightarrow> Inl e
           | Inr (streams, G2, s2) \<Rightarrow> Inr (stream # streams, G2, s2)))"

subsection \<open>Properties of the sampler state\<close>

text \<open>
  What construction establishes and every later call keeps: one index list per class,
  a permutation of the class's active rows; the recorded lengths; \<open>longest_seq\<close> their
  maximum; a buffer of \<open>longest_seq\<close> rows and one column per class, whose column \<open>c\<close>
  holds the class's list in its first \<open>label_to_length[c]\<close> rows.
\<close>

definition sampler_inv :: "label_matrix \<Rightarrow> 'g mos \<Rightarrow> bool" where
  "sampler_inv Y s \<longleftrightarrow>
     0 < n_cols Y \<and>
     length (label_to_idx_list s) = n_cols Y \<and>
     label_to_length s = map length (label_to_idx_list s) \<and>
     (\<forall>c<n_cols Y. mset (label_to_idx_list s ! c) = mset (np_where_eq1 Y c)) \<and>
     longest_seq s = Max (set (label_to_length s)) \<and>
     length (data_source s) = longest_seq s \<and>
     (\<forall>r<longest_seq s. length (data_source s ! r) = n_cols Y) \<and>
     (\<forall>c<n_cols Y. \<forall>r<label_to_length s ! c.
        data_source s ! r ! c = uint32 (label_to_idx_list s ! c ! r))"

text \<open>Every buffer position of column \<open>c\<close> holds (the stored form of) a member of class \<open>c\<close>'s list.\<close>

definition cells_from_lists :: "label_matrix \<Rightarrow> 'g mos \<Rightarrow> bool" where
  "cells_from_lists Y s \<longleftrightarrow>
     (\<forall>r<longest_seq s. \<forall>c<n_cols Y.
        data_source s ! r ! c \<in> uint32 ` set (label_to_idx_list s ! c))"

text \<open>The value \<^verbatim>\<open>__init__\<close> leaves in \<^verbatim>\<open>data_length\<close>, by sampling mode.\<close>

definition mode_length :: "string \<Rightarrow> label_matrix \<Rightarrow> nat \<Rightarrow> nat option" where
  "mode_length sampling_mode Y longest =
     (if sampling_mode = ''same'' then Some (length (rows Y))
      else if sampling_mode = ''over'' then Some (longest * n_cols Y)
      else None)"

text \<open>The number of examples active in a class, and the greatest such number.\<close>

definition class_count :: "label_matrix \<Rightarrow> nat \<Rightarrow> nat" where
  "class_count Y c = length (np_where_eq1 Y c)"

definition longest_count :: "label_matrix \<Rightarrow> nat" where
  "longest_count Y = Max (set (map (class_count Y) [0..<n_cols Y]))"

text \<open>A stream holds, for every class, the index of an example active in it.\<close>

definition occupies :: "label_matrix \<Rightarrow> nat list \<Rightarrow> bool" where
  "occupies Y stream = list_all (\<lambda>c. list_ex (active Y c) stream) [0..<n_cols Y]"

text \<open>Every element of a stream is a row index of the matrix.\<close>

definition valid_indices :: "label_matrix \<Rightarrow> nat list \<Rightarrow> bool" where
  "valid_indices Y stream = list_all (\<lambda>i. i < length (rows Y)) stream"

text \<open>
  Every position of the buffer's column \<open>c\<close> holds the index of an example active in
  \<open>c\<close>.
\<close>

definition buffer_active :: "label_matrix \<Rightarrow> nat list list \<Rightarrow> bool" where
  "buffer_active Y buf =
     list_all (\<lambda>row. list_all (\<lambda>c. active Y c (row ! c)) [0..<n_cols Y]) buf"

text \<open>
  The buffer has one row per example of the largest class and one column per class.
\<close>

definition buffer_shape :: "label_matrix \<Rightarrow> nat list list \<Rightarrow> bool" where
  "buffer_shape Y buf =
     (length buf = longest_count Y \<and> list_all (\<lambda>row. length row = n_cols Y) buf)"

text \<open>
  The real part of the buffer: the first \<open>class_count Y c\<close> rows of every column \<open>c\<close>,
  counted by the matrix's own class counts. \<open>real_active\<close>: every position of the real
  part holds the index of an example active in its column's class. \<open>real_complete\<close>:
  the real part of column \<open>c\<close> lists the examples active in \<open>c\<close>, each once.
  \<open>real_kept\<close>: two buffers agree on the real part.
\<close>

definition real_active :: "label_matrix \<Rightarrow> nat list list \<Rightarrow> bool" where
  "real_active Y buf =
     list_all (\<lambda>c. list_all (\<lambda>r. active Y c (buf ! r ! c)) [0..<class_count Y c])
       [0..<n_cols Y]"

definition real_complete :: "label_matrix \<Rightarrow> nat list list \<Rightarrow> bool" where
  "real_complete Y buf =
     list_all (\<lambda>c. mset (map (\<lambda>r. buf ! r ! c) [0..<class_count Y c])
                    = mset (np_where_eq1 Y c))
       [0..<n_cols Y]"

definition real_kept :: "label_matrix \<Rightarrow> nat list list \<Rightarrow> nat list list \<Rightarrow> bool" where
  "real_kept Y buf buf' =
     list_all (\<lambda>c. list_all (\<lambda>r. buf' ! r ! c = buf ! r ! c) [0..<class_count Y c])
       [0..<n_cols Y]"
section \<open>MultiBalancedSampler: the replacement default\<close>

text \<open>
  C2, as stated: a sampler constructed without a replacement argument draws with
  replacement. It fails on the one-example matrix \<open>[[1]]\<close>: the call to
  \<^verbatim>\<open>torch.multinomial\<close> carries \<^verbatim>\<open>replacement=False\<close>. (The only weight is
  \<open>1.0\<close>, computed without rounding.)
\<close>

theorem default_replacement_counterexample:
  "map_construction MultiBalancedSampler_iter
     (MultiBalancedSampler_init exact_fp \<lparr>kind = Dense, n_cols = 1, rows = [[1]]\<rparr> None None)
   = Built (Multinomial [1] 1 False)"
  by (simp add: MultiBalancedSampler_init_def MultiBalancedSampler_iter_def class_ids_def
      class_counts_def inverse_counts_def class_weights_def sample_weight_def sparse_def
      int64_def exact_fp_def)

text \<open>
  C2, amended: whenever construction succeeds, whatever the floating-point arithmetic,
  the sampler draws with exactly the replacement flag it was given, and without
  replacement when none was given.
\<close>

theorem default_replacement_is_without:
  "MultiBalancedSampler_init F Y replacement num_samples = Built s \<Longrightarrow>
   with_replacement (MultiBalancedSampler_iter s) = (replacement = Some True)"
  by (auto simp: MultiBalancedSampler_init_def MultiBalancedSampler_iter_def
      split: if_splits option.splits)

theorem default_replacement_is_without_witness:
  "\<not> with_replacement (MultiBalancedSampler_iter
     \<lparr>mbs_weights = [1], mbs_len = 1, mbs_replacement = False\<rparr>)"
proof -
  have "MultiBalancedSampler_init exact_fp \<lparr>kind = Dense, n_cols = 1, rows = [[1]]\<rparr> None None
        = Built \<lparr>mbs_weights = [1], mbs_len = 1, mbs_replacement = False\<rparr>"
    by (simp add: MultiBalancedSampler_init_def class_ids_def
        class_counts_def inverse_counts_def class_weights_def sample_weight_def sparse_def
        int64_def exact_fp_def)
  from default_replacement_is_without [OF this] show ?thesis by simp
qed

section \<open>Padding and collation: properties\<close>

lemma pad_loop_uniform:
  "\<lbrakk>list_all (\<lambda>t. feat_dim t = d) ts; i + length ts \<le> length out\<rbrakk> \<Longrightarrow>
   pad_loop d out i ts =
     Inr (take i out @ map (\<lambda>(t, plane). frames t @ drop (length (frames t)) plane) (zip ts (drop i out))
          @ drop (i + length ts) out)"
proof (induction ts arbitrary: out i)
  case Nil
  then show ?case by simp
next
  case (Cons t ts)
  have i: "i < length out" using Cons.prems by simp
  let ?p = "frames t @ drop (length (frames t)) (out ! i)"
  have sa: "slice_assign d t (out ! i) = Inr ?p"
    using Cons.prems by (simp add: slice_assign_def)
  have "pad_loop d (out[i := ?p]) (Suc i) ts =
     Inr (take (Suc i) (out[i := ?p]) @ map (\<lambda>(t, plane). frames t @ drop (length (frames t)) plane) (zip ts (drop (Suc i) (out[i := ?p])))
          @ drop (Suc i + length ts) (out[i := ?p]))"
    using Cons.prems by (intro Cons.IH) simp_all
  moreover have "take (Suc i) (out[i := ?p]) = take i out @ [?p]"
    using i by (simp add: take_Suc_conv_app_nth)
  moreover have "drop i out = out ! i # drop (Suc i) out"
    using i by (simp add: Cons_nth_drop_Suc)
  ultimately show ?case using sa by simp
qed

lemma pad_uniform:
  assumes "ts \<noteq> []" and "list_all (\<lambda>t. feat_dim t = d) ts"
  shows "pad ts pv =
     Inr (\<lparr>shape3 = (length ts, Max (set (map (\<lambda>f. length (frames f)) ts)), d),
           cells = map (\<lambda>t. frames t @ replicate (Max (set (map (\<lambda>f. length (frames f)) ts)) - length (frames t)) (replicate d pv)) ts\<rparr>,
          map (\<lambda>f. length (frames f)) ts)"
proof -
  let ?M = "Max (set (map (\<lambda>f. length (frames f)) ts))"
  have hd: "feat_dim (hd ts) = d" using assms by (cases ts) simp_all
  have "pad_loop d (replicate (length ts) (replicate ?M (replicate d pv))) 0 ts
      = Inr (map (\<lambda>t. frames t @ replicate (?M - length (frames t)) (replicate d pv)) ts)"
    using assms(2)
    by (subst pad_loop_uniform[where d=d]) (auto simp: zip_replicate2 map_replicate_const intro!: nth_equalityI)
  then show ?thesis using assms(1) hd by (simp add: pad_def full_def Let_def)
qed


lemma pad_lengths:
  "pad ts pv = Inr (x, l) \<Longrightarrow> l = map (\<lambda>f. length (frames f)) ts"
  by (auto simp: pad_def Let_def split: if_splits sum.splits)

lemma collate_assertion_never_fails:
  "sequential_collate batches \<noteq> Inl AssertionError"
proof -
  have "pad ts (pv::'a) \<noteq> Inl AssertionError" for ts :: "'a tensor2 list" and pv 
  proof -
    have "pad_loop d out i ts \<noteq> Inl AssertionError" for d out i
      by (induction ts arbitrary: out i) (auto simp: slice_assign_def Let_def split: sum.splits if_splits)
    then show ?thesis by (auto simp: pad_def Let_def split: sum.splits)
  qed
  then show ?thesis
    by (auto simp: sequential_collate_def shape1_def split: sum.splits dest!: pad_lengths)
qed

text \<open>
  C3: collation is claimed to raise whenever an example's feature sequence and frame
  target differ in time length. The assertion of \<^verbatim>\<open>sequential_collate\<close> compares
  the shapes of the two length vectors, which are both \<^verbatim>\<open>[batch]\<close>, so it can never
  fail (\<open>collate_assertion_never_fails\<close>). On the one-example batch below, whose
  feature sequence has one time step and whose frame target has two, collation
  returns normally, with the target's length vector \<open>[2]\<close>.
\<close>

theorem collate_accepts_mismatched_lengths:
  "sequential_collate
     [(\<lparr>feat_dim = 1, frames = [[5]]\<rparr>, \<lparr>feat_dim = 2, frames = [[0, 1], [1, 0]]\<rparr>, (0, 1), ''a'')]
   = Inr (\<lparr>shape3 = (1, 1, 1), cells = [[[5 :: int]]]\<rparr>,
          \<lparr>shape3 = (1, 2, 2), cells = [[[0, 1], [1, 0]]]\<rparr>, [(0, 1)], [''a''], [2])"
  by (simp add: sequential_collate_def pad_def full_def slice_assign_def shape1_def
      ex_data_def ex_target_def ex_clip_def ex_fname_def)

text \<open>
  C8: for a non-empty batch whose feature sequences are well-formed tensors of one
  feature dimension \<open>d\<close> and whose frame targets (of one feature dimension \<open>e\<close>) match
  them in time length, collation succeeds; the data tensor has shape
  \<^verbatim>\<open>[batch, max_len, d]\<close> with \<open>max_len\<close> the greatest time length, and has these
  dimensions; the returned length vector holds every example's true time length in
  draw order; every example's real frames are copied to the front of its plane and
  every entry at a time step beyond its true length is the padding value 0. For
  lengths \<open>[3, 7, 5]\<close> and \<open>d = 4\<close> the shape is \<^verbatim>\<open>[3, 7, 4]\<close>.
\<close>

theorem collate_pads_to_longest:
  fixes batches :: "('a::zero) example list"
  assumes "batches \<noteq> []"
    and "list_all (\<lambda>b. wf_tensor2 (ex_data b) \<and> feat_dim (ex_data b) = d) batches"
    and "list_all (\<lambda>b. feat_dim (ex_target b) = e \<and>
           length (frames (ex_target b)) = length (frames (ex_data b))) batches"
  shows "\<exists>data targets.
      sequential_collate batches =
        Inr (data, targets, map ex_clip batches, map ex_fname batches, data_lengths batches)
    \<and> shape3 data = (length batches, Max (set (data_lengths batches)), d)
    \<and> length (cells data) = length batches
    \<and> (\<forall>i<length batches.
          length (cells data ! i) = Max (set (data_lengths batches))
        \<and> take (data_lengths batches ! i) (cells data ! i) = frames (ex_data (batches ! i))
        \<and> (\<forall>t<Max (set (data_lengths batches)).
              length (cells data ! i ! t) = d
            \<and> (data_lengths batches ! i \<le> t \<longrightarrow> (\<forall>k<d. cells data ! i ! t ! k = 0))))
    \<and> (data_lengths batches = [3, 7, 5] \<and> d = 4 \<longrightarrow>
          shape3 data = (3, 7, 4) \<and> data_lengths batches = [3, 7, 5])"
proof -
  let ?lens = "data_lengths batches"
  let ?M = "Max (set ?lens)"
  let ?data = "\<lparr>shape3 = (length batches, ?M, d),
      cells = map (\<lambda>t. frames t @ replicate (?M - length (frames t)) (replicate d (0::'a)))
                (map ex_data batches)\<rparr>"
  have d1: "list_all (\<lambda>t. feat_dim t = d) (map ex_data batches)"
    using assms(2) by (simp add: list_all_iff)
  have d2: "list_all (\<lambda>t. feat_dim t = e) (map ex_target batches)"
    using assms(3) by (simp add: list_all_iff)
  have l1: "map (\<lambda>f. length (frames f)) (map ex_data batches) = ?lens"
    by (simp add: data_lengths_def)
  have l2: "map (\<lambda>f. length (frames f)) (map ex_target batches) = ?lens"
    using assms(3) by (simp add: data_lengths_def list_all_iff)
  have p1: "pad (map ex_data batches) (0::'a) = Inr (?data, ?lens)"
    using pad_uniform[OF _ d1, of 0, unfolded l1] assms(1) by simp
  obtain targets where p2: "pad (map ex_target batches) (0::'a) = Inr (targets, ?lens)"
    using pad_uniform[OF _ d2, of 0, unfolded l2] assms(1) by simp
  have sc: "sequential_collate batches =
        Inr (?data, targets, map ex_clip batches, map ex_fname batches, ?lens)"
    using assms(1) by (simp add: sequential_collate_def p1 p2)
  have le: "?lens ! i \<le> ?M" if "i < length batches" for i
    using that by (intro Max_ge) (auto simp: data_lengths_def)
  have cellprop: "length (cells ?data ! i) = ?M
        \<and> take (?lens ! i) (cells ?data ! i) = frames (ex_data (batches ! i))
        \<and> (\<forall>t<?M. length (cells ?data ! i ! t) = d
            \<and> (?lens ! i \<le> t \<longrightarrow> (\<forall>k<d. cells ?data ! i ! t ! k = 0)))"
    if i: "i < length batches" for i
  proof -
    have li: "?lens ! i = length (frames (ex_data (batches ! i)))"
      using i by (simp add: data_lengths_def)
    have wf: "\<forall>r \<in> set (frames (ex_data (batches ! i))). length r = d"
      using assms(2) i by (auto simp: list_all_iff wf_tensor2_def)
    have c: "cells ?data ! i = frames (ex_data (batches ! i))
               @ replicate (?M - ?lens ! i) (replicate d 0)"
      using i by (simp add: li)
    show ?thesis
      unfolding c using le[OF i] wf li
      by (auto simp: nth_append)
  qed
  have "Max (set [3, 7, 5::nat]) = 7" by simp
  then have inst: "?lens = [3, 7, 5] \<and> d = 4 \<longrightarrow> shape3 ?data = (3, 7, 4) \<and> ?lens = [3, 7, 5]"
    by (auto simp: data_lengths_def dest: arg_cong[where f=length])
  show ?thesis
    apply (rule exI[of _ ?data], rule exI[of _ targets])
    using sc cellprop inst by simp
qed


text \<open>The batch of the specification's example: lengths 3, 7 and 5, feature dimension 4.\<close>

theorem collate_pads_to_longest_witness:
  "\<exists>data targets.
     sequential_collate
       [(\<lparr>feat_dim = 4, frames = replicate 3 [1, 2, 3, 4 :: int]\<rparr>,
         \<lparr>feat_dim = 2, frames = replicate 3 [0, 1]\<rparr>, (0, 1), ''a''),
        (\<lparr>feat_dim = 4, frames = replicate 7 [5, 6, 7, 8]\<rparr>,
         \<lparr>feat_dim = 2, frames = replicate 7 [1, 0]\<rparr>, (1, 0), ''b''),
        (\<lparr>feat_dim = 4, frames = replicate 5 [9, 9, 9, 9]\<rparr>,
         \<lparr>feat_dim = 2, frames = replicate 5 [1, 1]\<rparr>, (1, 1), ''c'')]
     = Inr (data, targets, [(0, 1), (1, 0), (1, 1)], [''a'', ''b'', ''c''], [3, 7, 5])
   \<and> shape3 data = (3, 7, 4)
   \<and> cells data ! 0 ! 3 ! 2 = 0
   \<and> cells data ! 2 ! 6 ! 0 = 0"
proof -
  define B :: "int example list" where "B =
       [(\<lparr>feat_dim = 4, frames = replicate 3 [1, 2, 3, 4]\<rparr>,
         \<lparr>feat_dim = 2, frames = replicate 3 [0, 1]\<rparr>, (0, 1), ''a''),
        (\<lparr>feat_dim = 4, frames = replicate 7 [5, 6, 7, 8]\<rparr>,
         \<lparr>feat_dim = 2, frames = replicate 7 [1, 0]\<rparr>, (1, 0), ''b''),
        (\<lparr>feat_dim = 4, frames = replicate 5 [9, 9, 9, 9]\<rparr>,
         \<lparr>feat_dim = 2, frames = replicate 5 [1, 1]\<rparr>, (1, 1), ''c'')]"
  have dl: "data_lengths B = [3, 7, 5]"
    by (simp add: B_def data_lengths_def ex_data_def)
  have mx: "Max (set (data_lengths B)) = 7"
    by (simp add: dl)
  have len: "length B = 3"
    by (simp add: B_def)
  have cl: "map ex_clip B = [(0, 1), (1, 0), (1, 1)]" "map ex_fname B = [''a'', ''b'', ''c'']"
    by (simp_all add: B_def ex_clip_def ex_fname_def)
  have h1: "B \<noteq> []" by (simp add: B_def)
  have h2: "list_all (\<lambda>b. wf_tensor2 (ex_data b) \<and> feat_dim (ex_data b) = 4) B"
    by (simp add: B_def wf_tensor2_def ex_data_def list_all_iff)
  have h3: "list_all (\<lambda>b. feat_dim (ex_target b) = 2 \<and>
           length (frames (ex_target b)) = length (frames (ex_data b))) B"
    by (simp add: B_def ex_target_def ex_data_def)
  from collate_pads_to_longest [OF h1 h2 h3, unfolded mx len cl]
  obtain data targets where
    sc: "sequential_collate B =
        Inr (data, targets, [(0, 1), (1, 0), (1, 1)], [''a'', ''b'', ''c''], data_lengths B)"
    and sh: "shape3 data = (3, 7, 4)"
    and ce: "\<And>i t k. i < 3 \<Longrightarrow> t < 7 \<Longrightarrow> data_lengths B ! i \<le> t \<Longrightarrow> k < 4 \<Longrightarrow>
               cells data ! i ! t ! k = 0"
    by blast
  have a: "cells data ! 0 ! 3 ! 2 = 0"
    using ce[of 0 3 2] by (simp add: dl)
  have b: "cells data ! 2 ! 6 ! 0 = 0"
    using ce[of 2 6 0] by (simp add: dl)
  show ?thesis
    using sc[unfolded dl] sh a b unfolding B_def by blast
qed

section \<open>MultiBalancedSampler: the sampling weights\<close>

lemma member_le_sum_list_rat:
  fixes xs :: "rat list"
  shows "\<forall>x\<in>set xs. 0 \<le> x \<Longrightarrow> x \<in> set xs \<Longrightarrow> x \<le> sum_list xs"
proof (induction xs)
  case Nil then show ?case by simp
next
  case (Cons a xs)
  have "0 \<le> a" "0 \<le> sum_list xs" using Cons.prems(1) by (auto intro: sum_list_nonneg)
  then show ?case using Cons by (cases "x = a") (auto intro: order_trans[where y="sum_list xs"])
qed

lemma sum_list_le_length_rat:
  fixes xs :: "rat list"
  shows "\<forall>x\<in>set xs. x \<le> 1 \<Longrightarrow> sum_list xs \<le> of_nat (length xs)"
  by (induction xs) auto

lemma exact_fp_simps:
  "fp_recip exact_fp n = 1 / of_int n"
  "fp_div exact_fp a b = a / b"
  "fp_sum exact_fp xs = sum_list xs"
  "fp_float32 exact_fp x = x"
  by (simp_all add: exact_fp_def)

lemma exact_fp_ok: "fp_ok exact_fp"
proof -
  have r: "1 / (2 * of_int n) \<le> (1::rat) / of_int n \<and> (1::rat) / of_int n \<le> 1"
    if "1 \<le> n" for n :: int
  proof -
    have "(1::rat) \<le> of_int n" using that by simp
    then show ?thesis by (simp add: field_simps)
  qed
  have d: "a / (2 * b) \<le> a / b \<and> a / b \<le> 1"
    if "1 / 2 ^ 200 \<le> a" "a \<le> b" for a b :: rat
  proof -
    have "0 < a" using that(1) by (rule less_le_trans[rotated]) simp
    then show ?thesis using that(2) by (simp add: field_simps)
  qed
  show ?thesis
    unfolding fp_ok_def exact_fp_def
    using r d by (auto intro: member_le_sum_list_rat sum_list_le_length_rat)
qed

lemma int64_id:
  "- 9223372036854775808 \<le> x \<Longrightarrow> x < 9223372036854775808 \<Longrightarrow> int64 x = x"
  by (simp add: int64_def)

lemma column_sum_count:
  fixes rs :: "int list list"
  assumes "\<forall>r\<in>set rs. r ! c = 0 \<or> r ! c = 1"
  shows "sum_list (map (\<lambda>r. r ! c) rs) = int (length (filter (\<lambda>r. r ! c = 1) rs))"
  using assms by (induction rs) auto

lemma length_filter_nth:
  "length (filter (\<lambda>i. P (xs ! i)) [0..<length xs]) = length (filter P xs)"
proof (induction xs rule: rev_induct)
  case Nil
  then show ?case by simp
next
  case (snoc x xs)
  have "filter (\<lambda>i. P ((xs @ [x]) ! i)) [0..<length xs]
        = filter (\<lambda>i. P (xs ! i)) [0..<length xs]"
    by (rule filter_cong) (auto simp: nth_append)
  then show ?case using snoc by (simp add: nth_append)
qed

lemma class_count_rows:
  "class_count Y c = length (filter (\<lambda>r. r ! c = 1) (rows Y))"
  unfolding class_count_def np_where_eq1_def
  by (rule length_filter_nth[of "\<lambda>r. r ! c = 1" "rows Y"])

text \<open>
  On a 0/1 matrix of fewer than \<open>2^63\<close> rows the column sums do not wrap: they are the
  class counts, between 1 and the number of rows when every class is occupied.
\<close>

lemma class_counts_zero_one:
  assumes "wf_labels Y" "zero_one Y" "classes_occupied Y" "length (rows Y) < 2 ^ 63"
  shows "class_counts Y = map (\<lambda>c. int (class_count Y c)) [0..<n_cols Y]"
    and "\<forall>c<n_cols Y. 1 \<le> class_count Y c \<and> class_count Y c \<le> length (rows Y)"
proof -
  have bit: "r ! c = 0 \<or> r ! c = 1" if "r \<in> set (rows Y)" "c < n_cols Y" for r c
  proof -
    have "length r = n_cols Y" "\<forall>v\<in>set r. v = 0 \<or> v = 1"
      using assms(1,2) that(1) by (auto simp: wf_labels_def zero_one_def list_all_iff)
    then show ?thesis using that(2) by (metis nth_mem)
  qed
  have le: "class_count Y c \<le> length (rows Y)" for c
    by (simp add: class_count_rows)
  have ge: "1 \<le> class_count Y c" if c: "c < n_cols Y" for c
  proof -
    have "\<exists>r\<in>set (rows Y). r ! c = 1"
      using assms(3) c by (simp add: classes_occupied_def list_all_iff list_ex_iff)
    then obtain r where "r \<in> set (rows Y)" "r ! c = 1" by blast
    then have "filter (\<lambda>r. r ! c = 1) (rows Y) \<noteq> []"
      by (auto simp: filter_empty_conv)
    then show ?thesis by (simp add: class_count_rows Suc_le_eq)
  qed
  show "\<forall>c<n_cols Y. 1 \<le> class_count Y c \<and> class_count Y c \<le> length (rows Y)"
    using le ge by blast
  have "int64 (sum_list (map (\<lambda>r. r ! c) (rows Y))) = int (class_count Y c)"
    if c: "c < n_cols Y" for c
  proof -
    have s: "sum_list (map (\<lambda>r. r ! c) (rows Y)) = int (class_count Y c)"
      unfolding class_count_rows using bit c by (intro column_sum_count) blast
    have "int (class_count Y c) < 9223372036854775808"
      using le[of c] assms(4) by simp
    then show ?thesis unfolding s by (intro int64_id) simp_all
  qed
  then show "class_counts Y = map (\<lambda>c. int (class_count Y c)) [0..<n_cols Y]"
    by (simp add: class_counts_def)
qed

text \<open>On a 0/1 matrix the classes selected for row \<open>i\<close> are those the row is active in.\<close>

lemma class_ids_active:
  assumes "wf_labels Y" "zero_one Y" "i < length (rows Y)"
  shows "class_ids Y ! i = filter (\<lambda>c. active Y c i) [0..<n_cols Y]"
proof -
  have r: "rows Y ! i \<in> set (rows Y)" using assms(3) by simp
  have eq: "rows Y ! i ! c \<noteq> 0 \<longleftrightarrow> active Y c i" if c: "c < n_cols Y" for c
  proof -
    have "length (rows Y ! i) = n_cols Y" "\<forall>v\<in>set (rows Y ! i). v = 0 \<or> v = 1"
      using assms(1,2) r by (auto simp: wf_labels_def zero_one_def list_all_iff)
    then have "rows Y ! i ! c = 0 \<or> rows Y ! i ! c = 1" using c by (metis nth_mem)
    then show ?thesis using assms(3) by (auto simp: active_def)
  qed
  have "filter (\<lambda>c. rows Y ! i ! c \<noteq> 0) [0..<n_cols Y]
        = filter (\<lambda>c. active Y c i) [0..<n_cols Y]"
    by (rule filter_cong) (use eq in auto)
  then show ?thesis
    using assms(3) by (simp add: class_ids_def)
qed

lemma quotient_lower:
  fixes a b lo hi :: rat
  assumes "0 \<le> lo" "lo \<le> a" "0 < b" "b \<le> hi"
  shows "lo / (2 * hi) \<le> a / (2 * b)"
  using assms by (intro frac_le) simp_all

text \<open>
  The normalized class weights under rounding: each lies in \<open>[2^-95, 1]\<close>, for fewer
  than \<open>2^63\<close> rows and at most \<open>2^30\<close> classes.
\<close>

lemma class_weights_bounds:
  assumes ok: "fp_ok F" and wf: "wf_labels Y" "zero_one Y" "classes_occupied Y"
    and n: "0 < n_cols Y" and small: "length (rows Y) < 2 ^ 63" "n_cols Y \<le> 2 ^ 30"
  shows "inverse_counts F Y = map (\<lambda>c. fp_recip F (int (class_count Y c))) [0..<n_cols Y]"
    and "0 < fp_sum F (inverse_counts F Y)"
    and "length (class_weights F Y) = n_cols Y"
    and "\<forall>c<n_cols Y. 1 / 2 ^ 95 \<le> class_weights F Y ! c \<and> class_weights F Y ! c \<le> 1"
proof -
  note cc = class_counts_zero_one[OF wf small(1)]
  show inv: "inverse_counts F Y = map (\<lambda>c. fp_recip F (int (class_count Y c))) [0..<n_cols Y]"
    by (simp add: inverse_counts_def cc(1) comp_def)
  have rec: "1 / 2 ^ 64 \<le> fp_recip F (int (class_count Y c))
             \<and> fp_recip F (int (class_count Y c)) \<le> 1" if c: "c < n_cols Y" for c
  proof -
    let ?n = "int (class_count Y c)"
    have nat: "1 \<le> class_count Y c" "class_count Y c < 2 ^ 63"
      using cc(2) c small(1) by (auto intro: le_less_trans)
    have "?n < int (2 ^ 63)" using nat(2) by (simp only: of_nat_less_iff)
    then have b: "1 \<le> ?n" "?n < 2 ^ 63" using nat(1) by simp_all
    have f: "1 / (2 * of_int ?n) \<le> fp_recip F ?n" "fp_recip F ?n \<le> 1"
      using ok b unfolding fp_ok_def by blast+
    have "(of_nat (class_count Y c) :: rat) \<le> of_nat (2 ^ 63)"
      using nat(2) by (intro of_nat_mono) simp
    then have "(of_int ?n :: rat) \<le> 2 ^ 63" by simp
    moreover have "(0::rat) < of_int ?n" using nat(1) by simp
    ultimately have "1 / (2 * 2 ^ 63) \<le> (1::rat) / (2 * of_int ?n)"
      by (intro quotient_lower) simp_all
    then show ?thesis using f by simp
  qed
  let ?inv = "inverse_counts F Y"
  let ?S = "fp_sum F ?inv"
  have len: "length ?inv = n_cols Y" by (simp add: inv)
  have mem: "1 / 2 ^ 64 \<le> x \<and> x \<le> 1" if "x \<in> set ?inv" for x
    using that rec by (auto simp: inv)
  have ne: "?inv \<noteq> []" using len n by auto
  have l53: "length ?inv \<le> 2 ^ 53"
    using len small(2) by (simp add: order_trans[where y="2 ^ 30"])
  have unit: "\<forall>x\<in>set ?inv. 0 \<le> x \<and> x \<le> 1"
  proof
    fix x assume "x \<in> set ?inv"
    then have "1 / 2 ^ 64 \<le> x" "x \<le> 1" using mem by blast+
    moreover have "(0::rat) \<le> 1 / 2 ^ 64" by simp
    ultimately show "0 \<le> x \<and> x \<le> 1" by linarith
  qed
  have sum: "\<forall>x\<in>set ?inv. x \<le> ?S" "?S \<le> of_nat (length ?inv)"
    using ok ne l53 unit unfolding fp_ok_def by blast+
  have S30: "?S \<le> 2 ^ 30"
  proof -
    have "(of_nat (n_cols Y) :: rat) \<le> of_nat (2 ^ 30)"
      using small(2) by (intro of_nat_mono)
    then show ?thesis using sum(2) len by simp
  qed
  have hd: "hd ?inv \<in> set ?inv" using ne by (rule hd_in_set)
  have "1 / 2 ^ 64 \<le> ?S" using mem[OF hd] sum(1) hd by force
  moreover have "(0::rat) < 1 / 2 ^ 64" by simp
  ultimately show Spos: "0 < ?S" by linarith
  show "length (class_weights F Y) = n_cols Y"
    by (simp add: class_weights_def len)
  show "\<forall>c<n_cols Y. 1 / 2 ^ 95 \<le> class_weights F Y ! c \<and> class_weights F Y ! c \<le> 1"
  proof (intro allI impI)
    fix c assume c: "c < n_cols Y"
    let ?x = "?inv ! c"
    have x: "?x \<in> set ?inv" using c len by simp
    have xb: "1 / 2 ^ 64 \<le> ?x" "?x \<le> ?S" using mem[OF x] sum(1) x by blast+
    have "(1::rat) / 2 ^ 200 \<le> 1 / 2 ^ 64" by simp
    then have "1 / 2 ^ 200 \<le> ?x" using xb(1) by linarith
    moreover have "?S \<le> 2 ^ 53" using S30 by (rule order_trans) simp
    ultimately have d: "?x / (2 * ?S) \<le> fp_div F ?x ?S" "fp_div F ?x ?S \<le> 1"
      using ok xb(2) unfolding fp_ok_def by blast+
    have "(1 / 2 ^ 64) / (2 * 2 ^ 30) \<le> ?x / (2 * ?S)"
      using xb(1) Spos S30 by (intro quotient_lower) simp_all
    then have "1 / 2 ^ 95 \<le> fp_div F ?x ?S" using d(1) by simp
    then show "1 / 2 ^ 95 \<le> class_weights F Y ! c \<and> class_weights F Y ! c \<le> 1"
      using d(2) c len by (simp add: class_weights_def)
  qed
qed

text \<open>The mean of class weights from \<open>[2^-95, 1]\<close> over at most \<open>2^30\<close> classes, stored as \<^verbatim>\<open>float32\<close>.\<close>

lemma sample_weight_bounds:
  assumes ok: "fp_ok F" and ne: "ids \<noteq> []" and k: "length ids \<le> 2 ^ 30"
    and cw: "\<forall>c\<in>set ids. 1 / 2 ^ 95 \<le> cw ! c \<and> cw ! c \<le> 1"
  shows "0 < fp_float32 F (sample_weight F cw ids)"
    and "fp_float32 F (sample_weight F cw ids) \<le> 1"
proof -
  let ?ws = "map (\<lambda>c. cw ! c) ids"
  let ?S = "fp_sum F ?ws"
  let ?k = "of_nat (length ids) :: rat"
  have mem: "1 / 2 ^ 95 \<le> w \<and> w \<le> 1" if "w \<in> set ?ws" for w
    using that cw by auto
  have unit: "\<forall>x\<in>set ?ws. 0 \<le> x \<and> x \<le> 1"
  proof
    fix x assume "x \<in> set ?ws"
    then have "1 / 2 ^ 95 \<le> x" "x \<le> 1" using mem by blast+
    moreover have "(0::rat) \<le> 1 / 2 ^ 95" by simp
    ultimately show "0 \<le> x \<and> x \<le> 1" by linarith
  qed
  have wne: "?ws \<noteq> []" using ne by simp
  have l53: "length ?ws \<le> 2 ^ 53"
    using k by (simp add: order_trans[where y="2 ^ 30"])
  have sum: "\<forall>x\<in>set ?ws. x \<le> ?S" "?S \<le> of_nat (length ?ws)"
    using ok wne l53 unit unfolding fp_ok_def by blast+
  have hd: "hd ?ws \<in> set ?ws" using wne by (rule hd_in_set)
  have Slo: "1 / 2 ^ 95 \<le> ?S" using mem[OF hd] sum(1) hd by force
  have Sk: "?S \<le> ?k" using sum(2) by simp
  have kpos: "0 < ?k" using ne by simp
  have k30: "?k \<le> 2 ^ 30"
  proof -
    have "(of_nat (length ids) :: rat) \<le> of_nat (2 ^ 30)"
      using k by (intro of_nat_mono)
    then show ?thesis by simp
  qed
  have "(1::rat) / 2 ^ 200 \<le> 1 / 2 ^ 95" by simp
  then have "1 / 2 ^ 200 \<le> ?S" using Slo by linarith
  moreover have "?k \<le> 2 ^ 53" using k30 by (rule order_trans) simp
  ultimately have d: "?S / (2 * ?k) \<le> fp_div F ?S ?k" "fp_div F ?S ?k \<le> 1"
    using ok Sk unfolding fp_ok_def by blast+
  have "(1 / 2 ^ 95) / (2 * 2 ^ 30) \<le> ?S / (2 * ?k)"
    using Slo kpos k30 by (intro quotient_lower) simp_all
  then have mlo: "1 / 2 ^ 126 \<le> sample_weight F cw ids"
    using d(1) by (simp add: sample_weight_def)
  have mhi: "sample_weight F cw ids \<le> 1"
    using d(2) by (simp add: sample_weight_def)
  have "(0::rat) \<le> 1 / 2 ^ 126" by simp
  then have m0: "0 \<le> sample_weight F cw ids" using mlo by linarith
  have f: "fp_float32 F (sample_weight F cw ids) \<le> 1"
    "sample_weight F cw ids / 2 \<le> fp_float32 F (sample_weight F cw ids)"
    using ok m0 mhi mlo unfolding fp_ok_def by blast+
  show "fp_float32 F (sample_weight F cw ids) \<le> 1" by (rule f(1))
  have "(0::rat) < (1 / 2 ^ 126) / 2" by simp
  also have "\<dots> \<le> sample_weight F cw ids / 2" using mlo by simp
  finally show "0 < fp_float32 F (sample_weight F cw ids)" using f(2) by linarith
qed

text \<open>
  C4, as stated: the per-example weights are non-negative and sum to 1. On the matrix
  \<open>[[1, 0], [0, 1], [1, 1]]\<close> both classes have count 2, inverse count 0.5 and
  normalized weight \<open>0.5 / 1.0 = 0.5\<close>, so every example has weight 0.5 and the weights
  sum to 1.5. Every intermediate value (2, 0.5, 1) is a power of two, exactly
  representable in \<^verbatim>\<open>float64\<close> and \<^verbatim>\<open>float32\<close>: no operation rounds.
\<close>

theorem weights_sum_counterexample:
  "MultiBalancedSampler_init exact_fp
       \<lparr>kind = Dense, n_cols = 2, rows = [[1, 0], [0, 1], [1, 1]]\<rparr> None None
     = Built \<lparr>mbs_weights = [1/2, 1/2, 1/2], mbs_len = 3, mbs_replacement = False\<rparr>
   \<and> sum_list [1/2, 1/2, 1/2 :: rat] = 3/2"
  by (simp add: MultiBalancedSampler_init_def class_ids_def sparse_def int64_def exact_fp_def
      class_counts_def inverse_counts_def class_weights_def sample_weight_def upt_rec)

text \<open>
  C4, amended: for a dense 0/1 matrix with at least one row, no all-zero row and no
  empty class (fewer than \<open>2^63\<close> rows and at most \<open>2^30\<close> classes), in any
  floating-point arithmetic within \<open>fp_ok\<close>: construction succeeds with one weight per
  example; the weight of example \<open>i\<close> is the \<^verbatim>\<open>float32\<close> value of the mean, over the
  classes \<open>i\<close> is active in, of the normalized class weights; the normalized weight of
  class \<open>c\<close> is its inverse count divided by the sum of all inverse counts; and every
  stored weight lies in \<open>(0, 1]\<close>. Nothing is said of the sum of the weights.
\<close>

theorem sample_weights_positive_bounded:
  assumes "fp_ok F" and "\<not> sparse Y" and "rows Y \<noteq> []" and "wf_labels Y" and "zero_one Y"
    and "rows_occupied Y" and "classes_occupied Y"
    and "length (rows Y) < 2 ^ 63" and "n_cols Y \<le> 2 ^ 30"
  shows "\<exists>s. MultiBalancedSampler_init F Y replacement num_samples = Built s
     \<and> length (mbs_weights s) = length (rows Y)
     \<and> (\<forall>i<length (rows Y). mbs_weights s ! i =
          fp_float32 F
            (fp_div F
               (fp_sum F (map (\<lambda>c. class_weights F Y ! c)
                            (filter (\<lambda>c. active Y c i) [0..<n_cols Y])))
               (of_nat (length (filter (\<lambda>c. active Y c i) [0..<n_cols Y])))))
     \<and> (\<forall>c<n_cols Y. class_weights F Y ! c =
          fp_div F (fp_recip F (int (class_count Y c)))
            (fp_sum F (map (\<lambda>c. fp_recip F (int (class_count Y c))) [0..<n_cols Y])))
     \<and> (\<forall>w\<in>set (mbs_weights s). 0 < w \<and> w \<le> 1)"
proof -
  have act: "\<exists>c<n_cols Y. r ! c = 1" if "r \<in> set (rows Y)" for r
    using assms(6) that by (fastforce simp: rows_occupied_def list_all_iff list_ex_iff)
  obtain r0 where "r0 \<in> set (rows Y)" using assms(3) by (cases "rows Y") auto
  then have n: "0 < n_cols Y" using act by fastforce
  note cc = class_counts_zero_one[OF assms(4,5,7,8)]
  note cw = class_weights_bounds[OF assms(1,4,5,7) n assms(8,9)]
  have ids: "ids \<noteq> [] \<and> (\<forall>c\<in>set ids. c < n_cols Y) \<and> length ids \<le> 2 ^ 30"
    if mem: "ids \<in> set (class_ids Y)" for ids
  proof -
    obtain r where r: "r \<in> set (rows Y)" "ids = filter (\<lambda>c. r ! c \<noteq> 0) [0..<n_cols Y]"
      using mem by (auto simp: class_ids_def)
    obtain c where "c < n_cols Y" "r ! c = 1" using act[OF r(1)] by blast
    then have "c \<in> set ids" using r(2) by simp
    then have "ids \<noteq> []" by auto
    moreover have "\<forall>c\<in>set ids. c < n_cols Y" using r(2) by simp
    moreover have "length ids \<le> n_cols Y"
      unfolding r(2) using length_filter_le[of _ "[0..<n_cols Y]"] by simp
    ultimately show ?thesis using assms(9) by (auto intro: order_trans)
  qed
  have noempty: "\<not> list_ex (\<lambda>ids. ids = []) (class_ids Y)"
    using ids by (auto simp: list_ex_iff)
  have nozero: "\<not> list_ex (\<lambda>n. n = 0) (class_counts Y)"
    using cc(2) by (auto simp: list_ex_iff cc(1))
  let ?W = "map (\<lambda>ids. fp_float32 F (sample_weight F (class_weights F Y) ids)) (class_ids Y)"
  have bounds: "0 < w \<and> w \<le> 1" if w: "w \<in> set ?W" for w
  proof -
    obtain ids where i: "ids \<in> set (class_ids Y)"
      "w = fp_float32 F (sample_weight F (class_weights F Y) ids)"
      using w by auto
    have "\<forall>c\<in>set ids. 1 / 2 ^ 95 \<le> class_weights F Y ! c \<and> class_weights F Y ! c \<le> 1"
      using ids[OF i(1)] cw(4) by blast
    then show ?thesis
      using sample_weight_bounds[OF assms(1), of ids "class_weights F Y"] ids[OF i(1)] i(2)
      by blast
  qed
  have formula: "?W ! i =
          fp_float32 F
            (fp_div F
               (fp_sum F (map (\<lambda>c. class_weights F Y ! c)
                            (filter (\<lambda>c. active Y c i) [0..<n_cols Y])))
               (of_nat (length (filter (\<lambda>c. active Y c i) [0..<n_cols Y]))))"
    if i: "i < length (rows Y)" for i
  proof -
    have "i < length (class_ids Y)" using i by (simp add: class_ids_def)
    then show ?thesis
      by (simp add: class_ids_active[OF assms(4,5) i] sample_weight_def)
  qed
  have cwf: "class_weights F Y ! c =
          fp_div F (fp_recip F (int (class_count Y c)))
            (fp_sum F (map (\<lambda>c. fp_recip F (int (class_count Y c))) [0..<n_cols Y]))"
    if c: "c < n_cols Y" for c
    using c by (simp add: class_weights_def cw(1))
  have built: "MultiBalancedSampler_init F Y replacement num_samples = Built
      \<lparr> mbs_weights = ?W,
        mbs_len = (case num_samples of None \<Rightarrow> length (rows Y)
                   | Some n \<Rightarrow> if n \<noteq> 0 then n else length (rows Y)),
        mbs_replacement = (case replacement of None \<Rightarrow> False | Some b \<Rightarrow> b) \<rparr>"
    using assms(2,3) noempty nozero cw(2)
    by (simp add: MultiBalancedSampler_init_def)
  have len: "length ?W = length (rows Y)" by (simp add: class_ids_def)
  show ?thesis
    unfolding built using len formula cwf bounds by simp
qed

theorem sample_weights_positive_bounded_witness:
  "MultiBalancedSampler_init exact_fp \<lparr>kind = Dense, n_cols = 2, rows = [[1, 0], [0, 1]]\<rparr>
      None None
     = Built \<lparr>mbs_weights = [1/2, 1/2], mbs_len = 2, mbs_replacement = False\<rparr>
   \<and> class_weights exact_fp \<lparr>kind = Dense, n_cols = 2, rows = [[1, 0], [0, 1]]\<rparr> = [1/2, 1/2]"
proof -
  define Y where "Y = \<lparr>kind = Dense, n_cols = 2, rows = [[1, 0], [0, 1 :: int]]\<rparr>"
  have h: "\<not> sparse Y" "rows Y \<noteq> []" "wf_labels Y" "zero_one Y"
    "rows_occupied Y" "classes_occupied Y" "length (rows Y) < 2 ^ 63" "n_cols Y \<le> 2 ^ 30"
    by (simp_all add: Y_def sparse_def wf_labels_def zero_one_def rows_occupied_def
        classes_occupied_def upt_rec)
  have cnt: "class_count Y 0 = 1" "class_count Y (Suc 0) = 1"
    by (simp_all add: Y_def class_count_def np_where_eq1_def upt_rec)
  have act: "filter (\<lambda>c. active Y c 0) [0..<2] = [0]"
    "filter (\<lambda>c. active Y c (Suc 0)) [0..<2] = [Suc 0]"
    by (simp_all add: Y_def active_def upt_rec)
  from sample_weights_positive_bounded [OF exact_fp_ok h, of None None]
  obtain s where s: "MultiBalancedSampler_init exact_fp Y None None = Built s"
    and l: "length (mbs_weights s) = length (rows Y)"
    and w: "\<forall>i<length (rows Y). mbs_weights s ! i =
          fp_float32 exact_fp
            (fp_div exact_fp
               (fp_sum exact_fp (map (\<lambda>c. class_weights exact_fp Y ! c)
                            (filter (\<lambda>c. active Y c i) [0..<n_cols Y])))
               (of_nat (length (filter (\<lambda>c. active Y c i) [0..<n_cols Y]))))"
    and c: "\<forall>c<n_cols Y. class_weights exact_fp Y ! c =
          fp_div exact_fp (fp_recip exact_fp (int (class_count Y c)))
            (fp_sum exact_fp (map (\<lambda>c. fp_recip exact_fp (int (class_count Y c))) [0..<n_cols Y]))"
    by blast
  have n2: "n_cols Y = 2" "length (rows Y) = 2" by (simp_all add: Y_def)
  have c0: "class_weights exact_fp Y ! 0 = 1/2"
    and c1: "class_weights exact_fp Y ! Suc 0 = 1/2"
    using c[rule_format, of 0] c[rule_format, of 1]
    by (simp_all add: n2 cnt exact_fp_simps upt_rec)
  have lc: "length (class_weights exact_fp Y) = 2"
    by (simp add: class_weights_def inverse_counts_def class_counts_def n2)
  have cw: "class_weights exact_fp Y = [1/2, 1/2]"
    using lc c0 c1 by (intro nth_equalityI) (auto simp: less_Suc_eq numeral_2_eq_2)
  have w0: "mbs_weights s ! 0 = 1/2" and w1: "mbs_weights s ! 1 = 1/2"
    using w[rule_format, of 0] w[rule_format, of 1]
    by (simp_all add: n2 act c0 c1 exact_fp_simps)
  have ws: "mbs_weights s = [1/2, 1/2]"
    using l w0 w1 by (intro nth_equalityI) (auto simp: n2 less_Suc_eq numeral_2_eq_2)
  have "mbs_len s = 2 \<and> mbs_replacement s = False"
    using s by (auto simp: MultiBalancedSampler_init_def Y_def split: if_splits)
  then have "s = \<lparr>mbs_weights = [1/2, 1/2], mbs_len = 2, mbs_replacement = False\<rparr>"
    using ws by (cases s) simp
  then show ?thesis using s cw unfolding Y_def by simp
qed

section \<open>MinimumOccupancySampler: construction, reshuffle and iteration\<close>

lemma mset_rotate1: "mset (rotate1 xs) = mset xs"
  by (cases xs) simp_all

lemma mset_rotate: "mset (rotate n xs) = mset xs"
  by (induction n) (simp_all add: mset_rotate1)

lemma counter_random_ok: "np_random_ok counter_random"
  by (simp add: np_random_ok_def counter_random_def mset_rotate)

lemma length_assign_col [simp]: "length (assign_col buf lo hi ix vals) = length buf"
  by (simp add: assign_col_def)

lemma nth_assign_col:
  "r < length buf \<Longrightarrow>
   assign_col buf lo hi ix vals ! r =
     (if lo \<le> r \<and> r < hi then (buf ! r)[ix := uint32 (vals ! (r - lo))] else buf ! r)"
  by (simp add: assign_col_def)

lemma fill_real_length [simp]: "length (fill_real L buf ix lens) = length buf"
  by (induction lens arbitrary: buf ix) simp_all

lemma fill_real_row_length:
  "r < length buf \<Longrightarrow> length (fill_real L buf ix lens ! r) = length (buf ! r)"
  by (induction lens arbitrary: buf ix) (simp_all add: nth_assign_col)

lemma fill_real_nth:
  "r < length buf \<Longrightarrow> c < length (buf ! r) \<Longrightarrow>
   fill_real L buf ix lens ! r ! c =
     (if ix \<le> c \<and> c < ix + length lens \<and> r < lens ! (c - ix)
      then uint32 (L ! c ! r) else buf ! r ! c)"
proof (induction lens arbitrary: buf ix)
  case Nil
  then show ?case by simp
next
  case (Cons leng rest)
  let ?b = "assign_col buf 0 leng ix (L ! ix)"
  have r: "r < length ?b" and c: "c < length (?b ! r)"
    using Cons.prems by (simp_all add: nth_assign_col)
  have step: "?b ! r ! c = (if r < leng \<and> c = ix then uint32 (L ! ix ! r) else buf ! r ! c)"
    using Cons.prems by (auto simp: nth_assign_col nth_list_update)
  show ?case
  proof (cases "c = ix")
    case True
    then show ?thesis using Cons.IH[OF r c, of "Suc ix"] step by simp
  next
    case False
    show ?thesis
    proof (cases "ix < c")
      case True
      then obtain d where d: "c - ix = Suc d" "c - Suc ix = d" by (cases "c - ix") auto
      show ?thesis
        using Cons.IH[OF r c, of "Suc ix"] step True False d by auto
    next
      case False
      with \<open>c \<noteq> ix\<close> have "c < ix" by simp
      then show ?thesis using Cons.IH[OF r c, of "Suc ix"] step by simp
    qed
  qed
qed

lemma collect_indices_length:
  "length (fst (collect_indices R Y g cs)) = length cs"
proof (induction cs arbitrary: g)
  case Nil
  then show ?case by simp
next
  case (Cons c cs)
  obtain li g1 where sh: "rs_shuffle R g (np_where_eq1 Y c) = (li, g1)" by force
  obtain rest g2 where re: "collect_indices R Y g1 cs = (rest, g2)" by force
  show ?case using Cons.IH[of g1] sh re by simp
qed

lemma collect_indices_mset:
  assumes "np_random_ok R" "k < length cs"
  shows "mset (fst (collect_indices R Y g cs) ! k) = mset (np_where_eq1 Y (cs ! k))"
  using assms(2)
proof (induction cs arbitrary: g k)
  case Nil
  then show ?case by simp
next
  case (Cons c cs)
  obtain li g1 where sh: "rs_shuffle R g (np_where_eq1 Y c) = (li, g1)" by force
  have li: "mset li = mset (np_where_eq1 Y c)"
    using assms(1) sh unfolding np_random_ok_def by (metis fst_conv)
  obtain rest g2 where re: "collect_indices R Y g1 cs = (rest, g2)" by force
  show ?case
  proof (cases k)
    case 0
    then show ?thesis using sh re li by simp
  next
    case (Suc j)
    then have "j < length cs" using Cons.prems by simp
    from Cons.IH[OF this, of g1] show ?thesis using sh re Suc by simp
  qed
qed

lemma np_random_randint_ok:
  assumes "np_random_ok R" "n = 0 \<or> 0 < high"
  shows "\<exists>idxs G1. np_random_randint R G high n = Inr (idxs, G1)
           \<and> length idxs = n \<and> (\<forall>j\<in>set idxs. j < high)"
proof (cases "n = 0")
  case True
  then show ?thesis by (simp add: np_random_randint_def)
next
  case False
  with assms(2) have h: "0 < high" by simp
  obtain idxs G1 where r: "rs_randint R G high n = (idxs, G1)" by force
  have "length idxs = n \<and> (\<forall>j\<in>set idxs. j < high)"
    using assms(1) h r unfolding np_random_ok_def by (metis fst_conv)
  then show ?thesis using False h r by (simp add: np_random_randint_def)
qed

lemma reshuffle_loop_ok:
  assumes ok: "np_random_ok R"
    and lens: "\<forall>k<length lens. 0 < lens ! k \<and> lens ! k = length (L ! (ix + k))
                 \<and> lens ! k \<le> longest"
    and len: "length buf = longest"
  shows "\<exists>G' buf'. reshuffle_loop R L longest G buf ix lens = Inr (G', buf')
       \<and> length buf' = length buf
       \<and> (\<forall>r<length buf. length (buf' ! r) = length (buf ! r)
           \<and> (\<forall>c<length (buf ! r).
                if ix \<le> c \<and> c < ix + length lens \<and> lens ! (c - ix) \<le> r
                then buf' ! r ! c \<in> uint32 ` set (L ! c)
                else buf' ! r ! c = buf ! r ! c))"
  using lens len
proof (induction lens arbitrary: G buf ix)
  case Nil
  then show ?case by auto
next
  case (Cons leng rest)
  have l0: "0 < leng" "leng = length (L ! ix)" "leng \<le> longest"
    using Cons.prems(1)[rule_format, of 0] by auto
  obtain idxs G1 where ri: "np_random_randint R G leng (longest - leng) = Inr (idxs, G1)"
    and il: "length idxs = longest - leng" and ib: "\<forall>j\<in>set idxs. j < leng"
    using np_random_randint_ok[OF ok, of "longest - leng" leng G] l0(1) by blast
  let ?vals = "map (\<lambda>j. L ! ix ! j) idxs"
  let ?b = "assign_col buf leng (length buf) ix ?vals"
  have chk: "list_all (\<lambda>j. j < length (L ! ix)) idxs"
    using ib l0(2) by (simp add: list_all_iff)
  have unfold: "reshuffle_loop R L longest G buf ix (leng # rest)
        = reshuffle_loop R L longest G1 ?b (Suc ix) rest"
    using ri chk il Cons.prems(2) by simp
  have rest: "\<forall>k<length rest. 0 < rest ! k \<and> rest ! k = length (L ! (Suc ix + k))
                 \<and> rest ! k \<le> longest"
    using Cons.prems(1) by (auto dest: spec[where x="Suc k" for k])
  have lb: "length ?b = longest" using Cons.prems(2) by simp
  from Cons.IH[OF rest lb, of G1] obtain G' buf' where
    res: "reshuffle_loop R L longest G1 ?b (Suc ix) rest = Inr (G', buf')"
    and rl: "length buf' = length ?b"
    and rc: "\<And>r. r < length ?b \<Longrightarrow> length (buf' ! r) = length (?b ! r)"
    and rv: "\<And>r c. r < length ?b \<Longrightarrow> c < length (?b ! r) \<Longrightarrow>
               (if Suc ix \<le> c \<and> c < Suc ix + length rest \<and> rest ! (c - Suc ix) \<le> r
                then buf' ! r ! c \<in> uint32 ` set (L ! c)
                else buf' ! r ! c = ?b ! r ! c)"
    by blast
  have brow: "length (?b ! r) = length (buf ! r)" if r: "r < length buf" for r
    using r by (simp add: nth_assign_col)
  have bval: "if leng \<le> r \<and> c = ix then ?b ! r ! c \<in> uint32 ` set (L ! ix)
              else ?b ! r ! c = buf ! r ! c"
    if r: "r < length buf" and c: "c < length (buf ! r)" for r c
  proof (cases "leng \<le> r \<and> c = ix")
    case True
    then have "r - leng < length idxs" using r il Cons.prems(2) by linarith
    then have "idxs ! (r - leng) \<in> set idxs" by simp
    then have "L ! ix ! (idxs ! (r - leng)) \<in> set (L ! ix)"
      using ib l0(2) by simp
    moreover have "?b ! r ! c = uint32 (?vals ! (r - leng))"
      using True r c by (simp add: nth_assign_col)
    ultimately show ?thesis
      using True \<open>r - leng < length idxs\<close> by simp
  next
    case False
    then show ?thesis using r c by (auto simp: nth_assign_col nth_list_update)
  qed
  have final: "if ix \<le> c \<and> c < ix + length (leng # rest) \<and> (leng # rest) ! (c - ix) \<le> r
                then buf' ! r ! c \<in> uint32 ` set (L ! c)
                else buf' ! r ! c = buf ! r ! c"
    if r: "r < length buf" and c: "c < length (buf ! r)" for r c
  proof -
    have r': "r < length ?b" and c': "c < length (?b ! r)"
      using r c brow by simp_all
    note v = rv[OF r' c'] and b = bval[OF r c]
    consider "c < ix" | "c = ix" | "ix < c" by linarith
    then show ?thesis
    proof cases
      case 1
      then show ?thesis using v b by simp
    next
      case 2
      then show ?thesis using v b by (auto split: if_splits)
    next
      case 3
      then obtain d where d: "c - ix = Suc d" "c - Suc ix = d" by (cases "c - ix") auto
      show ?thesis using v b 3 d by (auto split: if_splits)
    qed
  qed
  show ?case
    unfolding unfold res
    using rl rc brow final by simp
qed

lemma np_empty_shape:
  "length (np_empty r c junk) = r"
  "i < r \<Longrightarrow> length (np_empty r c junk ! i) = c"
  by (simp_all add: np_empty_def)

lemma RandomState_ok:
  "seed_ok seed \<Longrightarrow> \<exists>g0. RandomState R seed entropy = Inr g0"
  by (auto simp: seed_ok_def RandomState_def split: option.splits)

lemma RandomState_rejects:
  "\<not> seed_ok seed \<Longrightarrow> RandomState R seed entropy = Inl ValueError"
  by (auto simp: seed_ok_def RandomState_def split: option.splits)

lemma init_succeeds:
  assumes "0 < n_cols Y" and "kind Y \<noteq> Sparse_not_indexable" and "seed_ok seed"
  shows "\<exists>s. MinimumOccupancySampler_init R Y sampling_mode seed entropy junk = Inr s"
proof -
  obtain g0 where g0: "RandomState R seed entropy = Inr g0"
    using RandomState_ok[OF assms(3), of R entropy] by blast
  obtain L g where c: "collect_indices R Y g0 [0..<n_cols Y] = (L, g)"
    by force
  have "length L = n_cols Y"
    using collect_indices_length[of R Y g0 "[0..<n_cols Y]"] c by simp
  then have "map length L \<noteq> []" using assms(1) by auto
  then show ?thesis
    using assms(2) by (simp add: MinimumOccupancySampler_init_def g0 c Let_def)
qed

lemma init_fails_without_classes:
  assumes "n_cols Y = 0"
  shows "MinimumOccupancySampler_init R Y sampling_mode seed entropy junk = Inl ValueError"
proof (cases "seed_ok seed")
  case True
  then obtain g0 where "RandomState R seed entropy = Inr g0"
    using RandomState_ok[of seed R entropy] by blast
  then show ?thesis using assms by (simp add: MinimumOccupancySampler_init_def)
next
  case False
  then show ?thesis
    by (simp add: MinimumOccupancySampler_init_def RandomState_rejects)
qed

lemma init_rejects_seed:
  assumes "\<not> seed_ok seed"
  shows "MinimumOccupancySampler_init R Y sampling_mode seed entropy junk = Inl ValueError"
  using assms by (simp add: MinimumOccupancySampler_init_def RandomState_rejects)

lemma init_rejects_format:
  assumes "seed_ok seed" and "0 < n_cols Y" and "kind Y = Sparse_not_indexable"
  shows "MinimumOccupancySampler_init R Y sampling_mode seed entropy junk = Inl TypeError"
proof -
  obtain g0 where "RandomState R seed entropy = Inr g0"
    using RandomState_ok[OF assms(1), of R entropy] by blast
  then show ?thesis using assms(2,3) by (simp add: MinimumOccupancySampler_init_def)
qed

lemma init_inv:
  assumes ok: "np_random_ok R"
    and init: "MinimumOccupancySampler_init R Y sampling_mode seed entropy junk = Inr s"
  shows "sampler_inv Y s"
    and "data_length s = mode_length sampling_mode Y (longest_seq s)"
    and "labels s = Y"
proof -
  obtain g0 where g0: "RandomState R seed entropy = Inr g0"
    using init by (cases "RandomState R seed entropy")
      (simp_all add: MinimumOccupancySampler_init_def)
  obtain L g where c: "collect_indices R Y g0 [0..<n_cols Y] = (L, g)"
    by force
  have lenL: "length L = n_cols Y"
    using collect_indices_length[of R Y g0 "[0..<n_cols Y]"] c by simp
  have fmt: "\<not> (0 < n_cols Y \<and> kind Y = Sparse_not_indexable)"
    using init by (auto simp: MinimumOccupancySampler_init_def g0)
  have ne: "map length L \<noteq> []"
    using init fmt
    by (auto simp: MinimumOccupancySampler_init_def g0 c Let_def split: if_splits)
  then have n: "0 < n_cols Y" using lenL by (cases L) auto
  let ?lens = "map length L"
  let ?M = "Max (set ?lens)"
  let ?buf = "fill_real L (np_empty ?M (length ?lens) junk) 0 ?lens"
  have s: "s = \<lparr> labels = Y, random_state = g, longest_seq = ?M, data_source = ?buf,
                 label_to_idx_list = L, label_to_length = ?lens,
                 data_length = mode_length sampling_mode Y ?M \<rparr>"
    using init ne lenL fmt
    by (auto simp: MinimumOccupancySampler_init_def g0 c Let_def mode_length_def)
  have ms: "mset (L ! k) = mset (np_where_eq1 Y k)" if k: "k < n_cols Y" for k
    using collect_indices_mset[OF ok, of k "[0..<n_cols Y]" Y g0] k c
    by simp
  have rowlen: "length (?buf ! r) = n_cols Y" if r: "r < ?M" for r
    using r lenL by (simp add: fill_real_row_length np_empty_shape)
  have cell: "?buf ! r ! k = uint32 (L ! k ! r)" if k: "k < n_cols Y" and r: "r < ?lens ! k" for k r
  proof -
    have "?lens ! k \<le> ?M" using k lenL by (intro Max_ge) auto
    then have r': "r < length (np_empty ?M (length ?lens) junk)"
      using r by (simp add: np_empty_shape)
    then have k': "k < length (np_empty ?M (length ?lens) junk ! r)"
      using k lenL by (simp add: np_empty_shape)
    show ?thesis
      using fill_real_nth[OF r' k', of L 0 ?lens] k r lenL by simp
  qed
  show "sampler_inv Y s"
    unfolding sampler_inv_def s using n lenL ms rowlen cell
    by (simp add: np_empty_shape)
  show "data_length s = mode_length sampling_mode Y (longest_seq s)"
    by (simp add: s)
  show "labels s = Y" by (simp add: s)
qed

lemma set_np_where_eq1: "set (np_where_eq1 Y c) = {i. active Y c i}"
  by (auto simp: np_where_eq1_def active_def)

lemma np_where_eq1_nonempty:
  assumes "classes_occupied Y" "c < n_cols Y"
  shows "np_where_eq1 Y c \<noteq> []"
proof -
  have "\<exists>r\<in>set (rows Y). r ! c = 1"
    using assms by (auto simp: classes_occupied_def list_all_iff list_ex_iff)
  then obtain i where "i < length (rows Y)" "rows Y ! i ! c = 1"
    by (auto simp: in_set_conv_nth)
  then have "i \<in> set (np_where_eq1 Y c)"
    by (simp add: set_np_where_eq1 active_def)
  then show ?thesis by auto
qed

lemma inv_class_list:
  assumes "sampler_inv Y s" "c < n_cols Y"
  shows "set (label_to_idx_list s ! c) = {i. active Y c i}"
    and "label_to_length s ! c = length (label_to_idx_list s ! c)"
    and "label_to_length s ! c = length (np_where_eq1 Y c)"
    and "label_to_length s ! c \<le> longest_seq s"
proof -
  have m: "mset (label_to_idx_list s ! c) = mset (np_where_eq1 Y c)"
    using assms by (simp add: sampler_inv_def)
  show "set (label_to_idx_list s ! c) = {i. active Y c i}"
    using mset_eq_setD[OF m] by (simp add: set_np_where_eq1)
  show l: "label_to_length s ! c = length (label_to_idx_list s ! c)"
    using assms by (simp add: sampler_inv_def)
  show "label_to_length s ! c = length (np_where_eq1 Y c)"
    using l mset_eq_length[OF m] by simp
  have "label_to_length s ! c \<in> set (label_to_length s)"
    using assms by (simp add: sampler_inv_def)
  then show "label_to_length s ! c \<le> longest_seq s"
    using assms(1) by (simp add: sampler_inv_def)
qed

lemma reshuffle_inv:
  assumes ok: "np_random_ok R" and inv: "sampler_inv Y s" and occ: "classes_occupied Y"
  shows "\<exists>G1 buf. MinimumOccupancySampler_reshuffle R G s = Inr (G1, s\<lparr>data_source := buf\<rparr>)
     \<and> sampler_inv Y (s\<lparr>data_source := buf\<rparr>)
     \<and> (\<forall>r<longest_seq s. \<forall>c<n_cols Y.
          buf ! r ! c \<in> uint32 ` set (label_to_idx_list s ! c))"
proof -
  let ?L = "label_to_idx_list s" and ?lens = "label_to_length s"
  have n: "length ?lens = n_cols Y" using inv by (simp add: sampler_inv_def)
  have pre: "\<forall>k<length ?lens. 0 < ?lens ! k \<and> ?lens ! k = length (?L ! (0 + k))
               \<and> ?lens ! k \<le> longest_seq s"
  proof (intro allI impI)
    fix k assume "k < length ?lens"
    then have k: "k < n_cols Y" using n by simp
    have pos: "0 < length (np_where_eq1 Y k)"
      using np_where_eq1_nonempty[OF occ k] by simp
    note icl = inv_class_list[OF inv k]
    have "0 < ?lens ! k" using pos icl(3) by linarith
    moreover have "?lens ! k = length (?L ! (0 + k))" using icl(2) by simp
    ultimately show "0 < ?lens ! k \<and> ?lens ! k = length (?L ! (0 + k)) \<and> ?lens ! k \<le> longest_seq s"
      using icl(4) by blast
  qed
  have len: "length (data_source s) = longest_seq s"
    using inv by (simp add: sampler_inv_def)
  from reshuffle_loop_ok[OF ok pre len, of G] obtain G1 buf where
    res: "reshuffle_loop R ?L (longest_seq s) G (data_source s) 0 ?lens = Inr (G1, buf)"
    and bl: "length buf = length (data_source s)"
    and br: "\<And>r. r < length (data_source s) \<Longrightarrow> length (buf ! r) = length (data_source s ! r)"
    and bv: "\<And>r c. r < length (data_source s) \<Longrightarrow> c < length (data_source s ! r) \<Longrightarrow>
               (if 0 \<le> c \<and> c < 0 + length ?lens \<and> ?lens ! (c - 0) \<le> r
                then buf ! r ! c \<in> uint32 ` set (?L ! c)
                else buf ! r ! c = data_source s ! r ! c)"
    by blast
  have rowlen: "length (data_source s ! r) = n_cols Y" if "r < longest_seq s" for r
    using inv that by (simp add: sampler_inv_def)
  have keep: "buf ! r ! c = data_source s ! r ! c"
    if c: "c < n_cols Y" and r: "r < ?lens ! c" for r c
  proof -
    have "r < longest_seq s" using inv_class_list(4)[OF inv c] r by simp
    then show ?thesis using bv[of r c] rowlen[of r] len c r n by simp
  qed
  have all: "buf ! r ! c \<in> uint32 ` set (?L ! c)"
    if r: "r < longest_seq s" and c: "c < n_cols Y" for r c
  proof (cases "?lens ! c \<le> r")
    case True
    then show ?thesis using bv[of r c] rowlen[OF r] len c r n by simp
  next
    case False
    then have lt: "r < ?lens ! c" by simp
    have "data_source s ! r ! c = uint32 (?L ! c ! r)"
      using inv c lt by (simp add: sampler_inv_def)
    moreover have "?L ! c ! r \<in> set (?L ! c)"
      using lt inv_class_list(2)[OF inv c] by simp
    ultimately show ?thesis using keep[OF c lt] by simp
  qed
  have inv': "sampler_inv Y (s\<lparr>data_source := buf\<rparr>)"
    using inv bl br len keep unfolding sampler_inv_def by simp
  show ?thesis
    using res inv' all by (auto simp: MinimumOccupancySampler_reshuffle_def)
qed

lemma length_concat_uniform:
  "\<forall>x\<in>set xs. length (f x) = n \<Longrightarrow> length (concat (map f xs)) = length xs * n"
  by (induction xs) simp_all

lemma set_take_concat:
  "set (take k (concat (map f xs))) \<subseteq> (\<Union>x\<in>set xs. set (f x))"
  using set_take_subset[of k "concat (map f xs)"] by auto

lemma nth_take_concat_first:
  assumes "xs \<noteq> []" "c < length (f (hd xs))" "c < k"
  shows "take k (concat (map f xs)) ! c = f (hd xs) ! c"
  using assms by (cases xs) (simp_all add: nth_append)

lemma iter_inv:
  assumes ok: "np_random_ok R" and inv: "sampler_inv Y s" and occ: "classes_occupied Y"
    and dl: "data_length s = Some dl"
  shows "\<exists>stream G1 s1 perm. MinimumOccupancySampler_iter R G s = Inr (stream, G1, s1)
     \<and> sampler_inv Y s1 \<and> data_length s1 = Some dl
     \<and> label_to_idx_list s1 = label_to_idx_list s
     \<and> label_to_length s1 = label_to_length s
     \<and> longest_seq s1 = longest_seq s
     \<and> (\<forall>r<longest_seq s. \<forall>c<n_cols Y.
          data_source s1 ! r ! c \<in> uint32 ` set (label_to_idx_list s ! c))
     \<and> mset perm = mset [0..<longest_seq s]
     \<and> stream = take dl (concat (map (\<lambda>i. data_source s1 ! i) perm))"
proof -
  from reshuffle_inv[OF ok inv occ, of G] obtain G1 buf where
    res: "MinimumOccupancySampler_reshuffle R G s = Inr (G1, s\<lparr>data_source := buf\<rparr>)"
    and inv1: "sampler_inv Y (s\<lparr>data_source := buf\<rparr>)"
    and all: "\<forall>r<longest_seq s. \<forall>c<n_cols Y. buf ! r ! c \<in> uint32 ` set (label_to_idx_list s ! c)"
    by blast
  have bl: "length buf = longest_seq s" using inv1 by (simp add: sampler_inv_def)
  obtain perm g1 where p: "rs_permutation R (random_state s) (longest_seq s) = (perm, g1)"
    by force
  have pm: "mset perm = mset [0..<longest_seq s]"
    using ok p unfolding np_random_ok_def by (metis fst_conv)
  have ps: "set perm = {0..<longest_seq s}"
    using mset_eq_setD[OF pm] by simp
  have n: "0 < n_cols Y" using inv by (simp add: sampler_inv_def)
  have "0 < length (np_where_eq1 Y 0)" using np_where_eq1_nonempty[OF occ n] by simp
  then have "0 < longest_seq s" using inv_class_list(3,4)[OF inv n] by linarith
  then have pne: "perm \<noteq> []" using ps by auto
  have chk: "list_all (\<lambda>i. i < longest_seq s) perm" using ps by (simp add: list_all_iff)
  let ?s1 = "s\<lparr>data_source := buf, random_state := g1\<rparr>"
  have it: "MinimumOccupancySampler_iter R G s
        = Inr (take dl (concat (map (\<lambda>i. data_source ?s1 ! i) perm)), G1, ?s1)"
    using res bl p chk pne dl by (simp add: MinimumOccupancySampler_iter_def)
  have inv2: "sampler_inv Y ?s1" using inv1 by (simp add: sampler_inv_def)
  show ?thesis
    using it inv2 dl all pm by auto
qed

lemma inv_longest:
  assumes "sampler_inv Y s"
  shows "longest_seq s = longest_count Y"
proof -
  have eq: "label_to_length s = map (class_count Y) [0..<n_cols Y]"
  proof (rule nth_equalityI)
    show "length (label_to_length s) = length (map (class_count Y) [0..<n_cols Y])"
      using assms by (simp add: sampler_inv_def)
  next
    fix c assume "c < length (label_to_length s)"
    then have c: "c < n_cols Y" using assms by (simp add: sampler_inv_def)
    show "label_to_length s ! c = map (class_count Y) [0..<n_cols Y] ! c"
      using inv_class_list(3)[OF assms c] c by (simp add: class_count_def)
  qed
  have "longest_seq s = Max (set (label_to_length s))"
    using assms by (simp add: sampler_inv_def)
  then show ?thesis unfolding eq longest_count_def .
qed

lemma sum_list_le_length_times:
  fixes xs :: "nat list"
  shows "\<forall>x\<in>set xs. x \<le> m \<Longrightarrow> sum_list xs \<le> length xs * m"
  by (induction xs) auto

lemma rows_le_sum_counts:
  assumes "rows_occupied Y"
  shows "length (rows Y) \<le> (\<Sum>c<n_cols Y. class_count Y c)"
proof -
  let ?m = "length (rows Y)" and ?n = "n_cols Y"
  let ?A = "\<lambda>c. {i. i < ?m \<and> rows Y ! i ! c = 1}"
  have cc: "class_count Y c = card (?A c)" for c
    unfolding class_count_def np_where_eq1_def
    by (subst length_filter_conv_card) (simp cong: conj_cong)
  have ex: "\<exists>c<?n. rows Y ! i ! c = 1" if "i < ?m" for i
    using assms that by (fastforce simp: rows_occupied_def list_all_iff list_ex_iff)
  define f where "f i = (SOME c. c < ?n \<and> rows Y ! i ! c = 1)" for i
  have f: "f i < ?n \<and> rows Y ! i ! f i = 1" if "i < ?m" for i
    unfolding f_def using someI_ex[OF ex[OF that]] by simp
  have "card {..<?m} = card ((\<lambda>i. (f i, i)) ` {..<?m})"
    by (rule card_image[symmetric]) (auto simp: inj_on_def)
  also have "\<dots> \<le> card (SIGMA c:{..<?n}. ?A c)"
    by (rule card_mono) (use f in auto)
  also have "\<dots> = (\<Sum>c<?n. card (?A c))"
    by (subst card_SigmaI) auto
  finally show ?thesis by (simp add: cc)
qed

lemma rows_le_buffer_size:
  assumes "rows_occupied Y"
  shows "length (rows Y) \<le> longest_count Y * n_cols Y"
proof (cases "n_cols Y = 0")
  case True
  then have "(\<Sum>c<n_cols Y. class_count Y c) = 0" by simp
  then show ?thesis using rows_le_sum_counts[OF assms] by simp
next
  case False
  let ?xs = "map (class_count Y) [0..<n_cols Y]"
  have "(\<Sum>c<n_cols Y. class_count Y c) = sum_list ?xs"
    by (simp add: interv_sum_list_conv_sum_set_nat atLeast0LessThan)
  also have "\<dots> \<le> length ?xs * longest_count Y"
    unfolding longest_count_def using False
    by (intro sum_list_le_length_times) (auto intro!: Max_ge)
  finally show ?thesis using rows_le_sum_counts[OF assms] by (simp add: mult.commute)
qed

lemma epochs_induct:
  assumes P: "P s"
    and step: "\<And>G s. P s \<Longrightarrow>
       \<exists>stream G1 s1. MinimumOccupancySampler_iter R G s = Inr (stream, G1, s1)
          \<and> P' s1 \<and> Q stream"
    and weaken: "\<And>s. P' s \<Longrightarrow> P s"
  shows "\<exists>streams G' s'. epochs R k G s = Inr (streams, G', s') \<and> length streams = k
          \<and> P s' \<and> (0 < k \<longrightarrow> P' s') \<and> (k = 0 \<longrightarrow> s' = s) \<and> list_all Q streams"
  using P
proof (induction k arbitrary: G s)
  case 0
  then show ?case by simp
next
  case (Suc k)
  from step[OF Suc.prems, of G] obtain stream G1 s1 where
    i: "MinimumOccupancySampler_iter R G s = Inr (stream, G1, s1)" "P' s1" "Q stream" by blast
  from Suc.IH[OF weaken[OF i(2)], of G1] obtain streams G' s' where
    e: "epochs R k G1 s1 = Inr (streams, G', s')" "length streams = k" "P s'"
       "0 < k \<longrightarrow> P' s'" "k = 0 \<longrightarrow> s' = s1" "list_all Q streams"
    by blast
  have "P' s'" using e(4,5) i(2) by (cases k) auto
  then show ?case using i e by simp
qed

lemma uint32_le: "uint32 i \<le> i"
  by (simp add: uint32_def)

lemma uint32_id: "i < 4294967296 \<Longrightarrow> uint32 i = i"
  by (simp add: uint32_def)

lemma cell_valid:
  assumes "sampler_inv Y s" "c < n_cols Y" "v \<in> uint32 ` set (label_to_idx_list s ! c)"
  shows "v < length (rows Y)"
    and "length (rows Y) \<le> 4294967296 \<Longrightarrow> active Y c v"
proof -
  obtain i where i: "v = uint32 i" "active Y c i"
    using assms(3) inv_class_list(1)[OF assms(1,2)] by auto
  then have lt: "i < length (rows Y)" by (simp add: active_def)
  show "v < length (rows Y)"
    using i(1) lt uint32_le[of i] by simp
  show "active Y c v" if "length (rows Y) \<le> 4294967296"
    using i lt that by (simp add: uint32_id)
qed

lemma stream_facts:
  assumes inv: "sampler_inv Y s" and cells: "cells_from_lists Y s"
    and pm: "mset perm = mset [0..<longest_seq s]" and pos: "0 < longest_seq s"
    and st: "stream = take dl (concat (map (\<lambda>i. data_source s ! i) perm))"
  shows "length stream = min dl (longest_seq s * n_cols Y)"
    and "valid_indices Y stream"
    and "n_cols Y \<le> dl \<Longrightarrow> length (rows Y) \<le> 4294967296 \<Longrightarrow> occupies Y stream"
proof -
  let ?f = "\<lambda>i. data_source s ! i"
  have ps: "set perm = {0..<longest_seq s}" using mset_eq_setD[OF pm] by simp
  have pl: "length perm = longest_seq s" using mset_eq_length[OF pm] by simp
  have rowlen: "length (?f i) = n_cols Y" if "i \<in> set perm" for i
    using that ps inv by (simp add: sampler_inv_def)
  have "length (concat (map ?f perm)) = length perm * n_cols Y"
    by (rule length_concat_uniform) (use rowlen in blast)
  then show "length stream = min dl (longest_seq s * n_cols Y)"
    by (simp add: st pl min.commute)
  have elem: "v < length (rows Y)" if v: "v \<in> set stream" for v
  proof -
    have "v \<in> (\<Union>x\<in>set perm. set (?f x))"
      using v set_take_concat[of dl ?f perm] by (auto simp: st)
    then obtain r where r: "r \<in> set perm" "v \<in> set (?f r)" by blast
    then obtain c where c: "c < n_cols Y" "v = ?f r ! c"
      using rowlen[OF r(1)] by (auto simp: in_set_conv_nth)
    have "r < longest_seq s" using r(1) ps by simp
    then have "v \<in> uint32 ` set (label_to_idx_list s ! c)"
      using cells c unfolding cells_from_lists_def by simp
    then show ?thesis using cell_valid(1)[OF inv c(1)] by blast
  qed
  then show "valid_indices Y stream"
    by (simp add: valid_indices_def list_all_iff)
  show "occupies Y stream" if dl: "n_cols Y \<le> dl" and bound: "length (rows Y) \<le> 4294967296"
  proof -
    have pne: "perm \<noteq> []" using pl pos by auto
    then have hd: "hd perm \<in> set perm" by simp
    then have hr: "hd perm < longest_seq s" using ps by simp
    have "\<exists>v\<in>set stream. active Y c v" if c: "c < n_cols Y" for c
    proof -
      have "stream ! c = ?f (hd perm) ! c"
        unfolding st using pne c dl rowlen[OF hd]
        by (intro nth_take_concat_first) simp_all
      moreover have "?f (hd perm) ! c \<in> uint32 ` set (label_to_idx_list s ! c)"
        using cells hr c unfolding cells_from_lists_def by simp
      moreover have "c < length stream"
      proof -
        have "n_cols Y \<le> longest_seq s * n_cols Y" using pos by simp
        then have "c < longest_seq s * n_cols Y" "c < dl" using c dl by linarith+
        then show ?thesis
          using \<open>length stream = min dl (longest_seq s * n_cols Y)\<close> by simp
      qed
      ultimately show ?thesis
        using cell_valid(2)[OF inv c _ bound] by (metis nth_mem)
    qed
    then show ?thesis
      by (simp add: occupies_def list_all_iff list_ex_iff)
  qed
qed

lemma iter_step:
  assumes ok: "np_random_ok R" and occ: "classes_occupied Y"
    and inv: "sampler_inv Y s" and dl: "data_length s = Some dl"
  shows "\<exists>stream G1 s1. MinimumOccupancySampler_iter R G s = Inr (stream, G1, s1)
     \<and> (sampler_inv Y s1 \<and> data_length s1 = Some dl \<and> cells_from_lists Y s1)
     \<and> label_to_idx_list s1 = label_to_idx_list s
     \<and> (length stream = min dl (longest_count Y * n_cols Y)
        \<and> valid_indices Y stream
        \<and> (n_cols Y \<le> dl \<and> length (rows Y) \<le> 4294967296 \<longrightarrow> occupies Y stream))"
proof -
  from iter_inv[OF ok inv occ dl, of G] obtain stream G1 s1 perm where
    it: "MinimumOccupancySampler_iter R G s = Inr (stream, G1, s1)"
    and inv1: "sampler_inv Y s1" and dl1: "data_length s1 = Some dl"
    and same: "label_to_idx_list s1 = label_to_idx_list s" "longest_seq s1 = longest_seq s"
    and cells: "\<forall>r<longest_seq s. \<forall>c<n_cols Y.
          data_source s1 ! r ! c \<in> uint32 ` set (label_to_idx_list s ! c)"
    and pm: "mset perm = mset [0..<longest_seq s]"
    and st: "stream = take dl (concat (map (\<lambda>i. data_source s1 ! i) perm))"
    by blast
  have c1: "cells_from_lists Y s1"
    using cells same by (simp add: cells_from_lists_def)
  have n: "0 < n_cols Y" using inv by (simp add: sampler_inv_def)
  have "0 < length (np_where_eq1 Y 0)" using np_where_eq1_nonempty[OF occ n] by simp
  then have pos: "0 < longest_seq s1" using inv_class_list(3,4)[OF inv1 n] by linarith
  note sf = stream_facts[OF inv1 c1 pm[folded same(2)] pos st]
  show ?thesis
    using it inv1 dl1 c1 same(1) sf inv_longest[OF inv1] by auto
qed

lemma inv_lengths:
  assumes "sampler_inv Y s"
  shows "label_to_length s = map (class_count Y) [0..<n_cols Y]"
proof (rule nth_equalityI)
  show "length (label_to_length s) = length (map (class_count Y) [0..<n_cols Y])"
    using assms by (simp add: sampler_inv_def)
next
  fix c assume "c < length (label_to_length s)"
  then have c: "c < n_cols Y" using assms by (simp add: sampler_inv_def)
  show "label_to_length s ! c = map (class_count Y) [0..<n_cols Y] ! c"
    using inv_class_list(3)[OF assms c] c by (simp add: class_count_def)
qed

lemma inv_real_cell:
  assumes "sampler_inv Y s" "c < n_cols Y" "r < class_count Y c"
  shows "data_source s ! r ! c = uint32 (label_to_idx_list s ! c ! r)"
    and "r < length (label_to_idx_list s ! c)"
proof -
  have l: "label_to_length s ! c = class_count Y c"
    using inv_class_list(3)[OF assms(1,2)] by (simp add: class_count_def)
  then show "data_source s ! r ! c = uint32 (label_to_idx_list s ! c ! r)"
    using assms by (simp add: sampler_inv_def)
  show "r < length (label_to_idx_list s ! c)"
    using l assms(3) inv_class_list(2)[OF assms(1,2)] by simp
qed

lemma buffer_shape_inv:
  assumes "sampler_inv Y s"
  shows "buffer_shape Y (data_source s)"
proof -
  have "length row = n_cols Y" if row: "row \<in> set (data_source s)" for row
  proof -
    obtain r where "r < length (data_source s)" "row = data_source s ! r"
      using row by (auto simp: in_set_conv_nth)
    then show ?thesis using assms by (simp add: sampler_inv_def)
  qed
  moreover have "length (data_source s) = longest_count Y"
    using assms inv_longest[OF assms] by (simp add: sampler_inv_def)
  ultimately show ?thesis by (simp add: buffer_shape_def list_all_iff)
qed

lemma real_active_inv:
  assumes inv: "sampler_inv Y s" and bound: "length (rows Y) \<le> 4294967296"
  shows "real_active Y (data_source s)"
proof -
  have "active Y c (data_source s ! r ! c)"
    if c: "c < n_cols Y" and r: "r < class_count Y c" for c r
  proof -
    note cell = inv_real_cell[OF inv c r]
    have "label_to_idx_list s ! c ! r \<in> set (label_to_idx_list s ! c)"
      using cell(2) by simp
    then show ?thesis
      using cell_valid(2)[OF inv c _ bound] cell(1) by blast
  qed
  then show ?thesis by (simp add: real_active_def list_all_iff)
qed

lemma real_complete_inv:
  assumes inv: "sampler_inv Y s" and bound: "length (rows Y) \<le> 4294967296"
  shows "real_complete Y (data_source s)"
proof -
  have "mset (map (\<lambda>r. data_source s ! r ! c) [0..<class_count Y c]) = mset (np_where_eq1 Y c)"
    if c: "c < n_cols Y" for c
  proof -
    let ?L = "label_to_idx_list s ! c"
    have len: "length ?L = class_count Y c"
      using inv_class_list(2,3)[OF inv c] by (simp add: class_count_def)
    have "data_source s ! r ! c = ?L ! r" if r: "r < class_count Y c" for r
    proof -
      note cell = inv_real_cell[OF inv c r]
      have "?L ! r \<in> set ?L" using cell(2) by simp
      then have "active Y c (?L ! r)" using inv_class_list(1)[OF inv c] by simp
      then have "?L ! r < 4294967296" using bound by (simp add: active_def)
      then show ?thesis using cell(1) by (simp add: uint32_id)
    qed
    then have "map (\<lambda>r. data_source s ! r ! c) [0..<class_count Y c] = map (\<lambda>r. ?L ! r) [0..<length ?L]"
      by (simp add: len)
    also have "\<dots> = ?L" by (rule map_nth)
    finally show ?thesis using inv c by (simp add: sampler_inv_def)
  qed
  then show ?thesis by (simp add: real_complete_def list_all_iff)
qed

lemma real_kept_inv:
  assumes "sampler_inv Y s" and "sampler_inv Y s'"
    and "label_to_idx_list s' = label_to_idx_list s"
  shows "real_kept Y (data_source s) (data_source s')"
proof -
  have "data_source s' ! r ! c = data_source s ! r ! c"
    if c: "c < n_cols Y" and r: "r < class_count Y c" for c r
    using inv_real_cell(1)[OF assms(1) c r] inv_real_cell(1)[OF assms(2) c r] assms(3)
    by simp
  then show ?thesis by (simp add: real_kept_def list_all_iff)
qed

lemma buffer_active_cells:
  assumes inv: "sampler_inv Y s" and cells: "cells_from_lists Y s"
    and bound: "length (rows Y) \<le> 4294967296"
  shows "buffer_active Y (data_source s)"
proof -
  have "active Y c (row ! c)" if row: "row \<in> set (data_source s)" and c: "c < n_cols Y" for row c
  proof -
    obtain r where r: "r < length (data_source s)" "row = data_source s ! r"
      using row by (auto simp: in_set_conv_nth)
    then have "r < longest_seq s" using inv by (simp add: sampler_inv_def)
    then have "row ! c \<in> uint32 ` set (label_to_idx_list s ! c)"
      using cells c r(2) by (simp add: cells_from_lists_def)
    then show ?thesis using cell_valid(2)[OF inv c _ bound] by blast
  qed
  then show ?thesis by (simp add: buffer_active_def list_all_iff)
qed

lemma mode_length_valid:
  assumes "sampling_mode = ''same'' \<or> sampling_mode = ''over''"
  shows "mode_length sampling_mode Y longest =
           Some (if sampling_mode = ''same'' then length (rows Y) else longest * n_cols Y)"
  using assms by (auto simp: mode_length_def)

lemma longest_count_pos:
  assumes "classes_occupied Y" "0 < n_cols Y"
  shows "0 < longest_count Y"
proof -
  have "0 < class_count Y 0"
    using np_where_eq1_nonempty[OF assms] by (simp add: class_count_def)
  moreover have "class_count Y 0 \<le> longest_count Y"
    unfolding longest_count_def using assms(2) by (intro Max_ge) auto
  ultimately show ?thesis by linarith
qed

text \<open>Rewrite rules that evaluate the model on concrete matrices with \<open>counter_random\<close>.\<close>

lemma counter_random_simps:
  "seeded counter_random n = n"
  "rs_shuffle counter_random g xs = (rotate g xs, Suc g)"
  "rs_randint counter_random g high n = (map (\<lambda>k. (g + k) mod high) [0..<n], g + n)"
  "rs_permutation counter_random g n = (rotate g [0..<n], Suc g)"
  by (simp_all add: counter_random_def)

lemma upt_numeral_right:
  "[i..<numeral n] = (if i < numeral n then i # [Suc i..<numeral n] else [])"
  by (rule upt_rec)

lemma rotate_numeral: "rotate (numeral n) xs = rotate1 (rotate (pred_numeral n) xs)"
  by (simp add: numeral_eq_Suc)

lemmas mos_eval = upt_numeral_right rotate_numeral MinimumOccupancySampler_init_def
  RandomState_def counter_random_simps
  np_where_eq1_def np_empty_def assign_col_def uint32_def upt_rec_numeral Let_def
  MinimumOccupancySampler_iter_def MinimumOccupancySampler_reshuffle_def
  np_random_randint_def MinimumOccupancySampler_len_def

lemmas occ_eval = rows_occupied_def classes_occupied_def occupies_def active_def
  buffer_active_def valid_indices_def upt_numeral_right

lemma reshuffle_loop_empty_class:
  assumes ok: "np_random_ok R"
    and lens: "\<forall>k<length lens. lens ! k = length (L ! (ix + k))"
    and len: "length buf = longest" and pos: "0 < longest"
    and empty: "\<exists>k<length lens. lens ! k = 0"
  shows "reshuffle_loop R L longest G buf ix lens = Inl ValueError"
  using lens len empty
proof (induction lens arbitrary: G buf ix)
  case Nil
  then show ?case by simp
next
  case (Cons leng rest)
  show ?case
  proof (cases "leng = 0")
    case True
    then show ?thesis using pos by (simp add: np_random_randint_def)
  next
    case False
    have l0: "leng = length (L ! ix)"
      using Cons.prems(1)[rule_format, of 0] by simp
    obtain idxs G1 where ri: "np_random_randint R G leng (longest - leng) = Inr (idxs, G1)"
      and il: "length idxs = longest - leng" and ib: "\<forall>j\<in>set idxs. j < leng"
      using np_random_randint_ok[OF ok, of "longest - leng" leng G] False by blast
    let ?b = "assign_col buf leng (length buf) ix (map (\<lambda>j. L ! ix ! j) idxs)"
    have chk: "list_all (\<lambda>j. j < length (L ! ix)) idxs"
      using ib l0 by (simp add: list_all_iff)
    have unfold: "reshuffle_loop R L longest G buf ix (leng # rest)
          = reshuffle_loop R L longest G1 ?b (Suc ix) rest"
      using ri chk il Cons.prems(2) by simp
    have rest: "\<forall>k<length rest. rest ! k = length (L ! (Suc ix + k))"
      using Cons.prems(1) by (auto dest: spec[where x="Suc k" for k])
    obtain k where k: "k < length (leng # rest)" "(leng # rest) ! k = 0"
      using Cons.prems(3) by blast
    then obtain j where "k = Suc j" using False by (cases k) auto
    then have ex: "\<exists>k<length rest. rest ! k = 0" using k by auto
    have lb: "length ?b = longest" using Cons.prems(2) by simp
    show ?thesis unfolding unfold using Cons.IH[OF rest lb ex] .
  qed
qed

lemma reshuffle_loop_no_rows:
  assumes "\<forall>x\<in>set lens. x = 0"
  shows "reshuffle_loop R L 0 G [] ix lens = Inr (G, [])"
  using assms
  by (induction lens arbitrary: ix) (simp_all add: np_random_randint_def assign_col_def)

lemma unknown_mode_unset:
  assumes "sampling_mode \<noteq> ''same''" and "sampling_mode \<noteq> ''over''"
    and "MinimumOccupancySampler_init R Y sampling_mode seed entropy junk = Inr s"
  shows "data_length s = None \<and> MinimumOccupancySampler_len s = Inl AttributeError"
  using assms
  by (auto simp: MinimumOccupancySampler_init_def MinimumOccupancySampler_len_def Let_def
      split: prod.splits if_splits sum.splits)

section \<open>MinimumOccupancySampler: the claims\<close>

text \<open>
  C1: every epoch's stream holds, for every class, an example of that class, in both
  modes; the class's docstring says the same,
  \<^verbatim>\<open>samples at least one instance from each class\<close>. In \<^verbatim>\<open>'same'\<close> mode the stream is cut to the number of rows. The matrix
  \<open>[[1, 1, 0], [0, 0, 1]]\<close> has two rows and three classes, every class and every row
  occupied; its buffer is the single row \<open>[0, 0, 1]\<close>, and the emitted stream
  \<open>[0, 0]\<close> holds no example of class 2.
\<close>

theorem same_mode_truncation_misses_class:
  "rows_occupied \<lparr>kind = Dense, n_cols = 3, rows = [[1, 1, 0], [0, 0, 1]]\<rparr>
   \<and> classes_occupied \<lparr>kind = Dense, n_cols = 3, rows = [[1, 1, 0], [0, 0, 1]]\<rparr>
   \<and> MinimumOccupancySampler_init counter_random
        \<lparr>kind = Dense, n_cols = 3, rows = [[1, 1, 0], [0, 0, 1]]\<rparr> ''same'' (Some 0) 0 (\<lambda>i j. 0)
      = Inr \<lparr>labels = \<lparr>kind = Dense, n_cols = 3, rows = [[1, 1, 0], [0, 0, 1]]\<rparr>,
              random_state = 3, longest_seq = 1, data_source = [[0, 0, 1]],
              label_to_idx_list = [[0], [0], [1]], label_to_length = [1, 1, 1],
              data_length = Some 2\<rparr>
   \<and> MinimumOccupancySampler_iter counter_random 0
        \<lparr>labels = \<lparr>kind = Dense, n_cols = 3, rows = [[1, 1, 0], [0, 0, 1]]\<rparr>,
         random_state = 3, longest_seq = 1, data_source = [[0, 0, 1]],
         label_to_idx_list = [[0], [0], [1]], label_to_length = [1, 1, 1],
         data_length = Some 2\<rparr>
      = Inr ([0, 0], 0,
          \<lparr>labels = \<lparr>kind = Dense, n_cols = 3, rows = [[1, 1, 0], [0, 0, 1]]\<rparr>,
           random_state = 4, longest_seq = 1, data_source = [[0, 0, 1]],
           label_to_idx_list = [[0], [0], [1]], label_to_length = [1, 1, 1],
           data_length = Some 2\<rparr>)
   \<and> \<not> occupies \<lparr>kind = Dense, n_cols = 3, rows = [[1, 1, 0], [0, 0, 1]]\<rparr> [0, 0]"
  apply (intro conjI)
      apply (simp add: occ_eval)
     apply (simp add: occ_eval)
    apply (simp add: mos_eval)
   apply (simp add: mos_eval)
  apply (simp add: occ_eval)
  done

text \<open>
  Where the cut of the stream keeps the first buffer row, every class is represented:
  for a matrix of at most \<open>2^32\<close> rows whose every class has an active example, in
  \<^verbatim>\<open>'over'\<close> mode, and in \<^verbatim>\<open>'same'\<close> mode when there are at least as many rows
  as classes, every one of \<open>k\<close> successive epochs succeeds and its stream holds, for
  every class, the index of an example active in that class.
\<close>

lemma every_class_occupied_each_epoch:
  fixes R :: "'g np_random"
  assumes "np_random_ok R" and "classes_occupied Y" and "length (rows Y) \<le> 4294967296"
    and "sampling_mode = ''over'' \<or> (sampling_mode = ''same'' \<and> n_cols Y \<le> length (rows Y))"
    and "MinimumOccupancySampler_init R Y sampling_mode seed entropy junk = Inr s"
  shows "\<exists>streams G' s'. epochs R k G s = Inr (streams, G', s')
      \<and> length streams = k \<and> list_all (occupies Y) streams"
proof -
  let ?dl = "if sampling_mode = ''same'' then length (rows Y) else longest_count Y * n_cols Y"
  note i = init_inv[OF assms(1,5)]
  have n: "0 < n_cols Y" using i(1) by (simp add: sampler_inv_def)
  have dl: "data_length s = Some ?dl"
    using i(2) assms(4) inv_longest[OF i(1)] by (auto simp: mode_length_def)
  have ge: "n_cols Y \<le> ?dl"
    using assms(4) longest_count_pos[OF assms(2) n] by auto
  let ?P = "\<lambda>s' :: 'g mos. sampler_inv Y s' \<and> data_length s' = Some ?dl"
  have "\<exists>streams G' s'. epochs R k G s = Inr (streams, G', s') \<and> length streams = k
          \<and> ?P s' \<and> (0 < k \<longrightarrow> ?P s') \<and> (k = 0 \<longrightarrow> s' = s)
          \<and> list_all (occupies Y) streams"
  proof (rule epochs_induct)
    show "?P s" using i(1) dl by simp
  next
    fix G :: 'g and s' :: "'g mos" assume "?P s'"
    then show "\<exists>stream G1 s1. MinimumOccupancySampler_iter R G s' = Inr (stream, G1, s1)
          \<and> ?P s1 \<and> occupies Y stream"
      using iter_step[OF assms(1,2), of s' ?dl G] ge assms(3) by auto
  qed simp
  then show ?thesis by blast
qed

lemma every_class_occupied_each_epoch_example:
  "\<exists>s streams G' s'.
      MinimumOccupancySampler_init counter_random
          \<lparr>kind = Dense, n_cols = 2, rows = [[1, 1], [1, 1], [1, 0]]\<rparr> ''same'' (Some 0) 0
          (\<lambda>i j. 0) = Inr s
    \<and> epochs counter_random 2 0 s = Inr (streams, G', s')
    \<and> length streams = 2
    \<and> list_all (occupies \<lparr>kind = Dense, n_cols = 2, rows = [[1, 1], [1, 1], [1, 0]]\<rparr>) streams"
proof -
  define Y where "Y = \<lparr>kind = Dense, n_cols = 2, rows = [[1, 1], [1, 1], [1, 0 :: int]]\<rparr>"
  have h: "classes_occupied Y" "length (rows Y) \<le> 4294967296"
    by (simp_all add: Y_def occ_eval)
  have m: "''same'' = ''over'' \<or> (''same'' = ''same'' \<and> n_cols Y \<le> length (rows Y))"
    by (simp add: Y_def)
  obtain s where s: "MinimumOccupancySampler_init counter_random Y ''same'' (Some 0) 0 (\<lambda>i j. 0)
      = Inr s"
    using init_succeeds[of Y "Some 0" counter_random "''same''" 0 "\<lambda>i j. 0"]
    by (auto simp: Y_def seed_ok_def)
  from every_class_occupied_each_epoch [OF counter_random_ok h m s, of 2 0]
  show ?thesis using s unfolding Y_def by blast
qed

text \<open>
  C5: a \<^verbatim>\<open>sampling_mode\<close> outside \<^verbatim>\<open>'same'\<close> and \<^verbatim>\<open>'over'\<close> is claimed to fail at
  construction. With \<^verbatim>\<open>sampling_mode='both'\<close> on the matrix \<open>[[1]]\<close> the constructor
  returns a sampler whose \<^verbatim>\<open>data_length\<close> is unset; \<^verbatim>\<open>__len__\<close> and \<^verbatim>\<open>__iter__\<close>
  are reached and raise AttributeError there (see also \<open>unknown_mode_unset\<close>).
\<close>

theorem unknown_mode_constructs:
  "MinimumOccupancySampler_init counter_random
      \<lparr>kind = Dense, n_cols = 1, rows = [[1]]\<rparr> ''both'' (Some 0) 0 (\<lambda>i j. 0)
   = Inr \<lparr>labels = \<lparr>kind = Dense, n_cols = 1, rows = [[1]]\<rparr>,
     random_state = 1, longest_seq = 1, data_source = [[0]],
     label_to_idx_list = [[0]], label_to_length = [1],
     data_length = None\<rparr>
   \<and> MinimumOccupancySampler_len
       \<lparr>labels = \<lparr>kind = Dense, n_cols = 1, rows = [[1]]\<rparr>,
        random_state = 1 :: nat, longest_seq = 1, data_source = [[0]],
        label_to_idx_list = [[0]], label_to_length = [1],
        data_length = None\<rparr> = Inl AttributeError
   \<and> MinimumOccupancySampler_iter counter_random 0
       \<lparr>labels = \<lparr>kind = Dense, n_cols = 1, rows = [[1]]\<rparr>,
        random_state = 1, longest_seq = 1, data_source = [[0]],
        label_to_idx_list = [[0]], label_to_length = [1],
        data_length = None\<rparr> = Inl AttributeError"
  apply (intro conjI)
    apply (simp add: mos_eval)
   apply (simp add: mos_eval)
  apply (simp add: mos_eval)
  done

text \<open>
  C6, as stated: a matrix with an empty class column fails at construction. For
  \<open>[[1, 0], [1, 0]]\<close>, whose class 1 is empty, the constructor returns a sampler; the
  column of the empty class keeps the uninitialised memory (here 7).
\<close>

theorem empty_class_constructs_counterexample:
  "\<not> classes_occupied \<lparr>kind = Dense, n_cols = 2, rows = [[1, 0], [1, 0]]\<rparr>
   \<and> MinimumOccupancySampler_init counter_random
      \<lparr>kind = Dense, n_cols = 2, rows = [[1, 0], [1, 0]]\<rparr> ''same'' (Some 0) 0 (\<lambda>i j. 7)
   = Inr \<lparr>labels = \<lparr>kind = Dense, n_cols = 2, rows = [[1, 0], [1, 0]]\<rparr>,
     random_state = 2, longest_seq = 2, data_source = [[0, 7], [1, 7]],
     label_to_idx_list = [[0, 1], []], label_to_length = [2, 0],
     data_length = Some 2\<rparr>"
  apply (intro conjI)
   apply (simp add: occ_eval)
  apply (simp add: mos_eval)
  done

text \<open>
  C6, amended: a dense or indexable sparse matrix with at least one class column and
  some class without an active example is accepted by the constructor, in every
  sampling mode and with every seed numpy accepts (none, or an integer of
  \<open>[0, 2^32 - 1]\<close>); the failure comes with the first \<^verbatim>\<open>__iter__\<close>, which raises
  ValueError (from the draw in \<^verbatim>\<open>_reshuffle\<close> out of an empty range, or from
  concatenating no rows when all classes are empty). Construction fails only for
  reasons that have nothing to do with an empty class: a seed out of range
  (\<open>init_rejects_seed\<close>), a sparse format without indexing (\<open>init_rejects_format\<close>), a
  matrix without class columns (\<open>init_fails_without_classes\<close>).
\<close>

theorem empty_class_fails_at_iteration:
  assumes "np_random_ok R" and "0 < n_cols Y" and "\<not> classes_occupied Y"
    and "kind Y \<noteq> Sparse_not_indexable" and "seed_ok seed"
  shows "\<exists>s. MinimumOccupancySampler_init R Y sampling_mode seed entropy junk = Inr s
     \<and> MinimumOccupancySampler_iter R G s = Inl ValueError"
proof -
  obtain s where init: "MinimumOccupancySampler_init R Y sampling_mode seed entropy junk = Inr s"
    using init_succeeds[OF assms(2,4,5), of R sampling_mode entropy junk] by blast
  note inv = init_inv(1)[OF assms(1) init]
  obtain c where c: "c < n_cols Y" "\<not> list_ex (\<lambda>r. r ! c = 1) (rows Y)"
    using assms(3) by (auto simp: classes_occupied_def list_all_iff)
  have "np_where_eq1 Y c = []"
    using c(2) by (auto simp: np_where_eq1_def list_ex_iff filter_empty_conv)
  then have z: "label_to_length s ! c = 0"
    using inv_class_list(3)[OF inv c(1)] by simp
  have n: "length (label_to_length s) = n_cols Y"
    using inv by (simp add: sampler_inv_def)
  have lens: "\<forall>k<length (label_to_length s).
      label_to_length s ! k = length (label_to_idx_list s ! (0 + k))"
    using inv by (simp add: sampler_inv_def)
  have len: "length (data_source s) = longest_seq s"
    using inv by (simp add: sampler_inv_def)
  show ?thesis
  proof (cases "0 < longest_seq s")
    case True
    have "reshuffle_loop R (label_to_idx_list s) (longest_seq s) G (data_source s) 0
            (label_to_length s) = Inl ValueError"
      using reshuffle_loop_empty_class[OF assms(1) lens len True] c(1) z n by auto
    then show ?thesis
      using init
      by (simp add: MinimumOccupancySampler_iter_def MinimumOccupancySampler_reshuffle_def)
  next
    case False
    then have l0: "longest_seq s = 0" by simp
    then have ds: "data_source s = []" using len by simp
    have "\<forall>x\<in>set (label_to_length s). x \<le> longest_seq s"
      using inv by (simp add: sampler_inv_def)
    then have "\<forall>x\<in>set (label_to_length s). x = 0" using l0 by simp
    then have rl: "reshuffle_loop R (label_to_idx_list s) 0 G [] 0 (label_to_length s)
            = Inr (G, [])"
      by (rule reshuffle_loop_no_rows)
    obtain perm g1 where p: "rs_permutation R (random_state s) 0 = (perm, g1)" by force
    have "mset perm = mset [0..<0]"
      using assms(1) p unfolding np_random_ok_def by (metis fst_conv)
    then have "perm = []" by simp
    then show ?thesis
      using init rl p l0 ds
      by (simp add: MinimumOccupancySampler_iter_def MinimumOccupancySampler_reshuffle_def)
  qed
qed

theorem empty_class_fails_at_iteration_witness:
  "\<exists>s. MinimumOccupancySampler_init counter_random
          \<lparr>kind = Dense, n_cols = 2, rows = [[1, 0], [1, 0]]\<rparr> ''same'' (Some 0) 0 (\<lambda>i j. 7)
        = Inr s
      \<and> MinimumOccupancySampler_iter counter_random 0 s = Inl ValueError"
proof -
  have "0 < n_cols \<lparr>kind = Dense, n_cols = 2, rows = [[1, 0], [1, 0]]\<rparr>"
    by simp
  moreover have "\<not> classes_occupied \<lparr>kind = Dense, n_cols = 2, rows = [[1, 0], [1, 0]]\<rparr>"
    by (simp add: occ_eval)
  moreover have "kind \<lparr>kind = Dense, n_cols = 2, rows = [[1, 0], [1, 0]]\<rparr>
      \<noteq> Sparse_not_indexable"
    by simp
  moreover have "seed_ok (Some 0)" by (simp add: seed_ok_def)
  ultimately show ?thesis
    by (rule empty_class_fails_at_iteration [OF counter_random_ok])
qed

text \<open>
  C7: for a sampler constructed in \<^verbatim>\<open>'same'\<close> or \<^verbatim>\<open>'over'\<close> mode from a matrix
  whose every row and every class is occupied, any number \<open>k\<close> of successive
  \<^verbatim>\<open>__iter__\<close> calls succeeds; \<^verbatim>\<open>__len__\<close> returns the row count in \<^verbatim>\<open>'same'\<close>
  mode and the longest class count times the number of classes in \<^verbatim>\<open>'over'\<close> mode,
  the same value before and after the calls; and every emitted stream has exactly that
  many elements.
\<close>

theorem length_fixed_across_epochs:
  fixes R :: "'g np_random"
  assumes "np_random_ok R" and "rows_occupied Y" and "classes_occupied Y"
    and "sampling_mode = ''same'' \<or> sampling_mode = ''over''"
    and "MinimumOccupancySampler_init R Y sampling_mode seed entropy junk = Inr s"
  shows "\<exists>streams G' s'. epochs R k G s = Inr (streams, G', s')
      \<and> length streams = k
      \<and> MinimumOccupancySampler_len s =
          Inr (if sampling_mode = ''same'' then length (rows Y)
               else longest_count Y * n_cols Y)
      \<and> MinimumOccupancySampler_len s' = MinimumOccupancySampler_len s
      \<and> list_all (\<lambda>stream. MinimumOccupancySampler_len s = Inr (length stream)) streams"
proof -
  let ?dl = "if sampling_mode = ''same'' then length (rows Y) else longest_count Y * n_cols Y"
  note i = init_inv[OF assms(1,5)]
  have dl: "data_length s = Some ?dl"
    using i(2) mode_length_valid[OF assms(4)] inv_longest[OF i(1)] by simp
  have le: "?dl \<le> longest_count Y * n_cols Y"
    using rows_le_buffer_size[OF assms(2)] by simp
  let ?P = "\<lambda>s' :: 'g mos. sampler_inv Y s' \<and> data_length s' = Some ?dl"
  have "\<exists>streams G' s'. epochs R k G s = Inr (streams, G', s') \<and> length streams = k
          \<and> ?P s' \<and> (0 < k \<longrightarrow> ?P s') \<and> (k = 0 \<longrightarrow> s' = s)
          \<and> list_all (\<lambda>stream. length stream = ?dl) streams"
  proof (rule epochs_induct)
    show "?P s" using i(1) dl by simp
  next
    fix G :: 'g and s' :: "'g mos" assume "?P s'"
    then show "\<exists>stream G1 s1. MinimumOccupancySampler_iter R G s' = Inr (stream, G1, s1)
          \<and> ?P s1 \<and> length stream = ?dl"
      using iter_step[OF assms(1,3), of s' ?dl G] le by (auto simp: min_absorb1)
  qed simp
  then show ?thesis
    using dl by (auto simp: MinimumOccupancySampler_len_def list_all_iff)
qed

theorem length_fixed_across_epochs_witness:
  "\<exists>s streams G' s'.
      MinimumOccupancySampler_init counter_random
          \<lparr>kind = Dense, n_cols = 2, rows = [[1, 1], [1, 1], [1, 0]]\<rparr> ''over'' (Some 0) 0
          (\<lambda>i j. 0) = Inr s
    \<and> epochs counter_random 2 0 s = Inr (streams, G', s')
    \<and> length streams = 2
    \<and> MinimumOccupancySampler_len s = Inr 6
    \<and> MinimumOccupancySampler_len s' = Inr 6
    \<and> list_all (\<lambda>stream. length stream = 6) streams"
proof -
  define Y where "Y = \<lparr>kind = Dense, n_cols = 2, rows = [[1, 1], [1, 1], [1, 0 :: int]]\<rparr>"
  have h: "rows_occupied Y" "classes_occupied Y"
    by (simp_all add: Y_def occ_eval)
  have m: "''over'' = ''same'' \<or> ''over'' = ''over''" by simp
  obtain s where s: "MinimumOccupancySampler_init counter_random Y ''over'' (Some 0) 0 (\<lambda>i j. 0)
      = Inr s"
    using init_succeeds[of Y "Some 0" counter_random "''over''" 0 "\<lambda>i j. 0"]
    by (auto simp: Y_def seed_ok_def)
  have lc: "longest_count Y * n_cols Y = 6"
    by (simp add: Y_def longest_count_def class_count_def np_where_eq1_def upt_numeral_right)
  from length_fixed_across_epochs [OF counter_random_ok h m s, of 2 0]
  obtain streams G' s' where
    "epochs counter_random 2 0 s = Inr (streams, G', s')" "length streams = 2"
    "MinimumOccupancySampler_len s = Inr 6" "MinimumOccupancySampler_len s' = Inr 6"
    "list_all (\<lambda>stream. length stream = 6) streams"
    by (auto simp: lc list_all_iff)
  then show ?thesis using s unfolding Y_def by blast
qed

text \<open>
  C9: two samplers built from the same matrix with the same seed are claimed to emit
  the same streams. Construction with seed 0 gives one and the same sampler state both
  times, but \<^verbatim>\<open>_reshuffle\<close> draws the oversampled rows from the process-wide
  generator: the first sampler iterates with that generator in state 0 and leaves it in
  state 1, so the second sampler, in the very same state, emits a different stream.
\<close>

theorem same_seed_streams_differ:
  "MinimumOccupancySampler_init counter_random
      \<lparr>kind = Dense, n_cols = 2, rows = [[1, 1], [1, 1], [1, 0]]\<rparr> ''over'' (Some 0) 0 (\<lambda>i j. 0)
   = Inr \<lparr>labels = \<lparr>kind = Dense, n_cols = 2, rows = [[1, 1], [1, 1], [1, 0]]\<rparr>,
           random_state = 2, longest_seq = 3, data_source = [[0, 1], [1, 0], [2, 0]],
           label_to_idx_list = [[0, 1, 2], [1, 0]], label_to_length = [3, 2],
           data_length = Some 6\<rparr>
   \<and> MinimumOccupancySampler_iter counter_random 0
       \<lparr>labels = \<lparr>kind = Dense, n_cols = 2, rows = [[1, 1], [1, 1], [1, 0]]\<rparr>,
        random_state = 2, longest_seq = 3, data_source = [[0, 1], [1, 0], [2, 0]],
        label_to_idx_list = [[0, 1, 2], [1, 0]], label_to_length = [3, 2],
        data_length = Some 6\<rparr>
     = Inr ([2, 1, 0, 1, 1, 0], 1,
        \<lparr>labels = \<lparr>kind = Dense, n_cols = 2, rows = [[1, 1], [1, 1], [1, 0]]\<rparr>,
         random_state = 3, longest_seq = 3, data_source = [[0, 1], [1, 0], [2, 1]],
         label_to_idx_list = [[0, 1, 2], [1, 0]], label_to_length = [3, 2],
         data_length = Some 6\<rparr>)
   \<and> MinimumOccupancySampler_iter counter_random 1
       \<lparr>labels = \<lparr>kind = Dense, n_cols = 2, rows = [[1, 1], [1, 1], [1, 0]]\<rparr>,
        random_state = 2, longest_seq = 3, data_source = [[0, 1], [1, 0], [2, 0]],
        label_to_idx_list = [[0, 1, 2], [1, 0]], label_to_length = [3, 2],
        data_length = Some 6\<rparr>
     = Inr ([2, 0, 0, 1, 1, 0], 2,
        \<lparr>labels = \<lparr>kind = Dense, n_cols = 2, rows = [[1, 1], [1, 1], [1, 0]]\<rparr>,
         random_state = 3, longest_seq = 3, data_source = [[0, 1], [1, 0], [2, 0]],
         label_to_idx_list = [[0, 1, 2], [1, 0]], label_to_length = [3, 2],
         data_length = Some 6\<rparr>)"
  apply (intro conjI)
    apply (simp add: mos_eval)
   apply (simp add: mos_eval)
  apply (simp add: mos_eval)
  done

text \<open>
  C10, as stated: every position of column \<open>c\<close> holds an active index already after
  construction. For \<open>[[1, 1], [1, 1], [1, 0]]\<close> class 1 has two examples and the buffer
  three rows: after construction position \<open>(2, 1)\<close> still holds uninitialised memory
  (here 7), which is not even a row index.
\<close>

theorem uninitialised_tail_counterexample:
  "np_random_ok counter_random
   \<and> classes_occupied \<lparr>kind = Dense, n_cols = 2, rows = [[1, 1], [1, 1], [1, 0]]\<rparr>
   \<and> MinimumOccupancySampler_init counter_random
        \<lparr>kind = Dense, n_cols = 2, rows = [[1, 1], [1, 1], [1, 0]]\<rparr> ''same'' (Some 0) 0 (\<lambda>i j. 7)
      = Inr \<lparr>labels = \<lparr>kind = Dense, n_cols = 2, rows = [[1, 1], [1, 1], [1, 0]]\<rparr>,
              random_state = 2, longest_seq = 3, data_source = [[0, 1], [1, 0], [2, 7]],
              label_to_idx_list = [[0, 1, 2], [1, 0]], label_to_length = [3, 2],
              data_length = Some 3\<rparr>
   \<and> \<not> buffer_active \<lparr>kind = Dense, n_cols = 2, rows = [[1, 1], [1, 1], [1, 0]]\<rparr>
          [[0, 1], [1, 0], [2, 7]]"
  apply (intro conjI)
     apply (rule counter_random_ok)
    apply (simp add: occ_eval)
   apply (simp add: mos_eval)
  apply (simp add: occ_eval)
  done

lemma occupied_rows_nonempty:
  assumes "classes_occupied Y" "0 < n_cols Y"
  shows "0 < length (rows Y)"
proof -
  have "np_where_eq1 Y 0 \<noteq> []" using np_where_eq1_nonempty[OF assms] by simp
  then obtain i where "i \<in> set (np_where_eq1 Y 0)" by (cases "np_where_eq1 Y 0") auto
  then have "active Y 0 i" by (simp add: set_np_where_eq1)
  then show ?thesis by (cases "rows Y") (simp_all add: active_def)
qed

text \<open>
  C10, amended: for a matrix of at most \<open>2^32\<close> rows whose every class is occupied, and
  a sampler constructed in \<^verbatim>\<open>'same'\<close> or \<^verbatim>\<open>'over'\<close> mode. The buffer has
  \<open>longest_count Y\<close> rows and one column per class. Construction fills the real part,
  the first \<open>class_count Y c\<close> rows of every column \<open>c\<close>, with the indices of the
  examples active in \<open>c\<close>, each once; the recorded lengths are the class counts. Any
  number \<open>k\<close> of successive epochs succeeds, every stream is non-empty and holds only
  valid row indices. After these epochs, and after a further \<^verbatim>\<open>_reshuffle\<close>, the
  index lists and lengths are unchanged, the buffer has the same shape, and its real
  part is cell by cell what construction wrote. After any epoch, and after any
  \<^verbatim>\<open>_reshuffle\<close>, every position of every column \<open>c\<close> holds the index of an example
  active in \<open>c\<close>.
\<close>

theorem buffer_holds_class_members:
  fixes R :: "'g np_random"
  assumes "np_random_ok R" and "classes_occupied Y" and "length (rows Y) \<le> 4294967296"
    and "sampling_mode = ''same'' \<or> sampling_mode = ''over''"
    and "MinimumOccupancySampler_init R Y sampling_mode seed entropy junk = Inr s"
  shows "buffer_shape Y (data_source s)
     \<and> real_active Y (data_source s)
     \<and> real_complete Y (data_source s)
     \<and> label_to_length s = map (class_count Y) [0..<n_cols Y]
     \<and> (\<exists>streams G' s'. epochs R k G s = Inr (streams, G', s')
        \<and> length streams = k
        \<and> list_all (\<lambda>stream. stream \<noteq> [] \<and> valid_indices Y stream) streams
        \<and> label_to_idx_list s' = label_to_idx_list s
        \<and> label_to_length s' = label_to_length s
        \<and> buffer_shape Y (data_source s')
        \<and> real_kept Y (data_source s) (data_source s')
        \<and> (0 < k \<longrightarrow> buffer_active Y (data_source s'))
        \<and> (\<exists>G'' s''. MinimumOccupancySampler_reshuffle R G' s' = Inr (G'', s'')
              \<and> label_to_idx_list s'' = label_to_idx_list s
              \<and> label_to_length s'' = label_to_length s
              \<and> buffer_shape Y (data_source s'')
              \<and> real_kept Y (data_source s) (data_source s'')
              \<and> buffer_active Y (data_source s'')))"
proof -
  let ?dl = "if sampling_mode = ''same'' then length (rows Y) else longest_count Y * n_cols Y"
  note i = init_inv[OF assms(1,5)]
  have n: "0 < n_cols Y" using i(1) by (simp add: sampler_inv_def)
  have dl: "data_length s = Some ?dl"
    using i(2) mode_length_valid[OF assms(4)] inv_longest[OF i(1)] by simp
  have pos: "0 < min ?dl (longest_count Y * n_cols Y)"
    using occupied_rows_nonempty[OF assms(2) n] longest_count_pos[OF assms(2) n] n by simp
  let ?P = "\<lambda>s' :: 'g mos. sampler_inv Y s' \<and> data_length s' = Some ?dl
              \<and> label_to_idx_list s' = label_to_idx_list s"
  let ?P' = "\<lambda>s' :: 'g mos. sampler_inv Y s' \<and> data_length s' = Some ?dl
              \<and> label_to_idx_list s' = label_to_idx_list s \<and> cells_from_lists Y s'"
  let ?Q = "\<lambda>stream. stream \<noteq> [] \<and> valid_indices Y stream"
  have "\<exists>streams G' s'. epochs R k G s = Inr (streams, G', s') \<and> length streams = k
          \<and> ?P s' \<and> (0 < k \<longrightarrow> ?P' s') \<and> (k = 0 \<longrightarrow> s' = s)
          \<and> list_all ?Q streams"
  proof (rule epochs_induct)
    show "?P s" using i(1) dl by simp
  next
    fix G :: 'g and s' :: "'g mos" assume p: "?P s'"
    from iter_step[OF assms(1,2), of s' ?dl G] p obtain stream G1 s1 where
      st: "MinimumOccupancySampler_iter R G s' = Inr (stream, G1, s1)"
        "sampler_inv Y s1" "data_length s1 = Some ?dl" "cells_from_lists Y s1"
        "label_to_idx_list s1 = label_to_idx_list s'"
        "length stream = min ?dl (longest_count Y * n_cols Y)"
        "valid_indices Y stream"
      by blast
    have "0 < length stream" unfolding st(6) by (rule pos)
    then have "stream \<noteq> []" by simp
    then show "\<exists>stream G1 s1. MinimumOccupancySampler_iter R G s' = Inr (stream, G1, s1)
          \<and> ?P' s1 \<and> ?Q stream"
      using st p by simp
  qed simp
  then obtain streams G' s' where e: "epochs R k G s = Inr (streams, G', s')"
    "length streams = k" "sampler_inv Y s'" "label_to_idx_list s' = label_to_idx_list s"
    "0 < k \<longrightarrow> cells_from_lists Y s'"
    "list_all ?Q streams"
    by blast
  from reshuffle_inv[OF assms(1) e(3) assms(2), of G'] obtain G'' buf where
    r: "MinimumOccupancySampler_reshuffle R G' s' = Inr (G'', s'\<lparr>data_source := buf\<rparr>)"
       "sampler_inv Y (s'\<lparr>data_source := buf\<rparr>)"
       "\<forall>r<longest_seq s'. \<forall>c<n_cols Y. buf ! r ! c \<in> uint32 ` set (label_to_idx_list s' ! c)"
    by blast
  let ?s'' = "s'\<lparr>data_source := buf\<rparr>"
  have l'': "label_to_idx_list ?s'' = label_to_idx_list s" using e(4) by simp
  have "cells_from_lists Y ?s''"
    using r(3) by (simp add: cells_from_lists_def)
  then have act'': "buffer_active Y (data_source ?s'')"
    using buffer_active_cells[OF r(2) _ assms(3)] by blast
  have after: "\<exists>G'' s''. MinimumOccupancySampler_reshuffle R G' s' = Inr (G'', s'')
              \<and> label_to_idx_list s'' = label_to_idx_list s
              \<and> label_to_length s'' = label_to_length s
              \<and> buffer_shape Y (data_source s'')
              \<and> real_kept Y (data_source s) (data_source s'')
              \<and> buffer_active Y (data_source s'')"
    using r(1) l'' inv_lengths[OF r(2)] inv_lengths[OF i(1)] buffer_shape_inv[OF r(2)]
      real_kept_inv[OF i(1) r(2) l''] act''
    by (intro exI[of _ G''] exI[of _ ?s'']) simp
  have act': "0 < k \<longrightarrow> buffer_active Y (data_source s')"
    using buffer_active_cells[OF e(3) _ assms(3)] e(5) by blast
  have epochs: "\<exists>streams G' s'. epochs R k G s = Inr (streams, G', s')
        \<and> length streams = k
        \<and> list_all ?Q streams
        \<and> label_to_idx_list s' = label_to_idx_list s
        \<and> label_to_length s' = label_to_length s
        \<and> buffer_shape Y (data_source s')
        \<and> real_kept Y (data_source s) (data_source s')
        \<and> (0 < k \<longrightarrow> buffer_active Y (data_source s'))
        \<and> (\<exists>G'' s''. MinimumOccupancySampler_reshuffle R G' s' = Inr (G'', s'')
              \<and> label_to_idx_list s'' = label_to_idx_list s
              \<and> label_to_length s'' = label_to_length s
              \<and> buffer_shape Y (data_source s'')
              \<and> real_kept Y (data_source s) (data_source s'')
              \<and> buffer_active Y (data_source s''))"
    using e(1,2,4,6) inv_lengths[OF e(3)] inv_lengths[OF i(1)] buffer_shape_inv[OF e(3)]
      real_kept_inv[OF i(1) e(3,4)] act' after
    by (intro exI[of _ streams] exI[of _ G'] exI[of _ s']) simp
  show ?thesis
    using buffer_shape_inv[OF i(1)] real_active_inv[OF i(1) assms(3)]
      real_complete_inv[OF i(1) assms(3)] inv_lengths[OF i(1)] epochs
    by blast
qed

theorem buffer_holds_class_members_witness:
  "\<exists>s streams G' s' G'' s''.
      MinimumOccupancySampler_init counter_random
          \<lparr>kind = Dense, n_cols = 2, rows = [[1, 1], [1, 1], [1, 0]]\<rparr> ''same'' (Some 0) 0
          (\<lambda>i j. 7) = Inr s
    \<and> real_active \<lparr>kind = Dense, n_cols = 2, rows = [[1, 1], [1, 1], [1, 0]]\<rparr>
         (data_source s)
    \<and> real_complete \<lparr>kind = Dense, n_cols = 2, rows = [[1, 1], [1, 1], [1, 0]]\<rparr>
         (data_source s)
    \<and> label_to_length s = [3, 2]
    \<and> epochs counter_random 1 0 s = Inr (streams, G', s')
    \<and> list_all (\<lambda>stream. stream \<noteq> []
          \<and> valid_indices \<lparr>kind = Dense, n_cols = 2, rows = [[1, 1], [1, 1], [1, 0]]\<rparr> stream)
         streams
    \<and> real_kept \<lparr>kind = Dense, n_cols = 2, rows = [[1, 1], [1, 1], [1, 0]]\<rparr>
         (data_source s) (data_source s')
    \<and> buffer_active \<lparr>kind = Dense, n_cols = 2, rows = [[1, 1], [1, 1], [1, 0]]\<rparr>
         (data_source s')
    \<and> MinimumOccupancySampler_reshuffle counter_random G' s' = Inr (G'', s'')
    \<and> real_kept \<lparr>kind = Dense, n_cols = 2, rows = [[1, 1], [1, 1], [1, 0]]\<rparr>
         (data_source s) (data_source s'')
    \<and> buffer_active \<lparr>kind = Dense, n_cols = 2, rows = [[1, 1], [1, 1], [1, 0]]\<rparr>
         (data_source s'')"
proof -
  define Y where "Y = \<lparr>kind = Dense, n_cols = 2, rows = [[1, 1], [1, 1], [1, 0 :: int]]\<rparr>"
  have h: "classes_occupied Y" "length (rows Y) \<le> 4294967296"
    by (simp_all add: Y_def occ_eval)
  have m: "''same'' = ''same'' \<or> ''same'' = ''over''" by simp
  obtain s where s: "MinimumOccupancySampler_init counter_random Y ''same'' (Some 0) 0 (\<lambda>i j. 7)
      = Inr s"
    using init_succeeds[of Y "Some 0" counter_random "''same''" 0 "\<lambda>i j. 7"]
    by (auto simp: Y_def seed_ok_def)
  have cc: "map (class_count Y) [0..<n_cols Y] = [3, 2]"
    by (simp add: Y_def class_count_def np_where_eq1_def upt_numeral_right)
  from buffer_holds_class_members [OF counter_random_ok h m s, of 1 0]
  show ?thesis using s unfolding Y_def[symmetric] cc by (simp only: zero_less_one simp_thms) blast
qed
end
